theory Spec2Isabelle
  imports Complex_Main "HOL-Library.AList" "HOL-Library.Code_Target_Nat"
begin

section \<open>JavaScript values used by the search server\<close>

text \<open>
  A JavaScript string is a sequence of UTF-16 code units. The tokenizer of
  \<^verbatim>\<open>server.js\<close> ranges over code units beyond Latin-1 (U+4E00 to U+9FA5), so a
  code unit is a natural number here and a string is a list of them; \<open>js\<close> turns an
  ASCII literal into such a list.
\<close>

type_synonym jsstring = "nat list"

definition js :: "string \<Rightarrow> jsstring" where
  "js s = map of_char s"

text \<open>
  The white space of \<^verbatim>\<open>String.prototype.trim\<close>, of \<^verbatim>\<open>\s\<close> in a regular expression and
  of the prefix \<^verbatim>\<open>parseInt\<close> skips: TAB, LF, VT, FF, CR, SP, NBSP, U+1680,
  U+2000..U+200A, LS, PS, U+202F, U+205F, U+3000 and the byte order mark.
\<close>

definition isWhiteSpace :: "nat \<Rightarrow> bool" where
  "isWhiteSpace c \<longleftrightarrow>
     (9 \<le> c \<and> c \<le> 13) \<or> c = 32 \<or> c = 160 \<or> c = 5760 \<or> (8192 \<le> c \<and> c \<le> 8202) \<or>
     c = 8232 \<or> c = 8233 \<or> c = 8239 \<or> c = 8287 \<or> c = 12288 \<or> c = 65279"

definition trim :: "jsstring \<Rightarrow> jsstring" where
  "trim s = rev (dropWhile isWhiteSpace (rev (dropWhile isWhiteSpace s)))"

text \<open>
  \<^verbatim>\<open>s.split(sep)\<close> for a separator of one code unit: the pieces between the
  separators, empty pieces included; the empty string splits into one empty piece.
\<close>

fun split :: "nat \<Rightarrow> jsstring \<Rightarrow> jsstring list" where
  "split sep [] = [[]]"
| "split sep (c # cs) =
     (if c = sep then [] # split sep cs
      else (case split sep cs of [] \<Rightarrow> [[c]] | p # ps \<Rightarrow> (c # p) # ps))"

definition isDigit :: "nat \<Rightarrow> bool" where
  "isDigit c \<longleftrightarrow> 48 \<le> c \<and> c \<le> 57"

definition digitsValue :: "jsstring \<Rightarrow> int" where
  "digitsValue ds = foldl (\<lambda>a d. 10 * a + int (d - 48)) 0 ds"

text \<open>
  \<^verbatim>\<open>parseInt(s, 10)\<close>: leading white space is skipped, one sign is read, then the
  longest run of decimal digits; with no digit the result is \<^verbatim>\<open>NaN\<close>, which is
  \<open>None\<close> here. The value is the integer that the numeral denotes; the Number that
  \<^verbatim>\<open>parseInt\<close> returns is its double, \<open>toNumber\<close> below.
\<close>

definition parseInt :: "jsstring \<Rightarrow> int option" where
  "parseInt s =
     (let t = dropWhile isWhiteSpace s;
          neg = (case t of [] \<Rightarrow> False | c # _ \<Rightarrow> c = 45);
          u = (case t of [] \<Rightarrow> [] | c # r \<Rightarrow> if c = 45 \<or> c = 43 then r else t);
          ds = takeWhile isDigit u
      in if ds = [] then None
         else Some (if neg then - digitsValue ds else digitsValue ds))"

text \<open>
  \<^verbatim>\<open>v || d\<close> on the result of \<^verbatim>\<open>parseInt\<close>: \<^verbatim>\<open>NaN\<close> and \<^verbatim>\<open>0\<close> are falsy and give
  the default \<open>d\<close>.
\<close>

definition orDefault :: "int option \<Rightarrow> int \<Rightarrow> int" where
  "orDefault v d = (case v of None \<Rightarrow> d | Some n \<Rightarrow> if n = 0 then d else n)"

text \<open>
  A Number that is no \<^verbatim>\<open>NaN\<close>: an integer that a double holds, or an infinity.
  \<open>toNumber\<close> is the double of an integer: an integer of at most 53 bits is itself;
  a longer one is rounded to 53 significant bits, a tie to the even neighbour, and
  becomes an infinity from \<open>2^1024\<close> on.
\<close>

datatype jsnum = Fin int | PosInf | NegInf

function bitLength :: "nat \<Rightarrow> nat" where
  "bitLength n = (if n = 0 then 0 else Suc (bitLength (n div 2)))"
  by pat_completeness auto
termination
  by (relation "measure id") auto

declare bitLength.simps [simp del]

definition roundToDouble :: "nat \<Rightarrow> nat option" where
  "roundToDouble m =
     (if bitLength m \<le> 53 then Some m
      else (let e = bitLength m - 53;
                q = m div 2 ^ e;
                r = m mod 2 ^ e;
                q' = (if 2 * r > 2 ^ e \<or> (2 * r = 2 ^ e \<and> odd q) then q + 1 else q)
            in if q' * 2 ^ e \<ge> 2 ^ 1024 then None else Some (q' * 2 ^ e)))"

definition toNumber :: "int \<Rightarrow> jsnum" where
  "toNumber i =
     (case roundToDouble (nat \<bar>i\<bar>) of
        None \<Rightarrow> if i < 0 then NegInf else PosInf
      | Some v \<Rightarrow> Fin (if i < 0 then - int v else int v))"

text \<open>
  \<^verbatim>\<open>v || d\<close> and \<^verbatim>\<open>Math.max(v, k)\<close> on Numbers, \<open>None\<close> being \<^verbatim>\<open>NaN\<close>: \<^verbatim>\<open>NaN\<close> and
  \<^verbatim>\<open>0\<close> are falsy.
\<close>

definition orNumber :: "jsnum option \<Rightarrow> jsnum \<Rightarrow> jsnum" where
  "orNumber v d = (case v of None \<Rightarrow> d | Some x \<Rightarrow> if x = Fin 0 then d else x)"

definition maxNumber :: "jsnum \<Rightarrow> int \<Rightarrow> jsnum" where
  "maxNumber v k = (case v of Fin x \<Rightarrow> Fin (max x k) | PosInf \<Rightarrow> PosInf | NegInf \<Rightarrow> Fin k)"

text \<open>
  \<^verbatim>\<open>xs.slice(start, fin)\<close> on an array: a negative bound counts from the end, both
  bounds are clamped to the array, and a first bound past the second gives \<open>[]\<close>.
\<close>

definition slice :: "'a list \<Rightarrow> int \<Rightarrow> int \<Rightarrow> 'a list" where
  "slice xs start fin =
     (let len = int (length xs);
          k = (if start < 0 then max (len + start) 0 else min start len);
          final = (if fin < 0 then max (len + fin) 0 else min fin len)
      in take (nat (final - k)) (drop (nat k) xs))"

section \<open>Constants of the server\<close>

definition MIN_TOKEN_LENGTH :: nat where "MIN_TOKEN_LENGTH = 2"
definition CACHE_MAX_ENTRIES :: nat where "CACHE_MAX_ENTRIES = 120"
definition CACHE_TTL :: int where "CACHE_TTL = 5 * 60 * 1000"
definition MAX_PAGE_SIZE :: int where "MAX_PAGE_SIZE = 100"

section \<open>Page number and page size of a request\<close>

text \<open>
  \<^verbatim>\<open>const { page = 1, pageSize = 20 } = req.query\<close>: a parameter that is absent
  (\<open>None\<close>) takes the numeric default, which \<^verbatim>\<open>parseInt\<close> reads back unchanged.
  \<^verbatim>\<open>pageNum = Math.max(parseInt(page, 10) || 1, 1)\<close> and
  \<^verbatim>\<open>size = Math.min(Math.max(parseInt(pageSize, 10) || 20, 1), MAX_PAGE_SIZE)\<close>.
  The page number is echoed in the response, so it is the Number the code has: the
  double of the integer read, which may be an infinity (the object handed to
  \<^verbatim>\<open>res.json\<close> holds the infinity; its serialisation writes it as \<^verbatim>\<open>null\<close>). The page
  size is clamped into \<open>[1, 100]\<close>, where the integer read and its double give the same.
\<close>

definition pageNum_of :: "jsstring option \<Rightarrow> jsnum" where
  "pageNum_of pg =
     maxNumber
       (orNumber (case pg of None \<Rightarrow> Some (Fin 1) | Some s \<Rightarrow> map_option toNumber (parseInt s))
          (Fin 1))
       1"

definition size_of :: "jsstring option \<Rightarrow> int" where
  "size_of psize =
     min (max (orDefault (case psize of None \<Rightarrow> Some 20 | Some s \<Rightarrow> parseInt s) 20) 1)
       MAX_PAGE_SIZE"

section \<open>Paginator\<close>

record 'a response =
  results :: "'a list"
  total :: nat
  page :: jsnum
  totalPages :: int
  pageSize :: int

text \<open>
  \<^verbatim>\<open>paginateResults\<close>. \<^verbatim>\<open>Math.ceil(total / pageSize)\<close> is the ceiling of the real
  quotient; the request handler calls it with \<open>1 \<le> pageSize \<le> 100\<close> only. For a
  finite page number \<^verbatim>\<open>start\<close> and \<^verbatim>\<open>start + pageSize\<close> are computed exactly; the
  doubles of the code differ from them only above \<open>2^53\<close>, where both lie past the end
  of every array. For an infinite page number and such a page size \<^verbatim>\<open>start\<close> and
  \<^verbatim>\<open>start + pageSize\<close> are the same infinity, and the slice between them is empty.
\<close>

definition paginateResults :: "'a list \<Rightarrow> jsnum \<Rightarrow> int \<Rightarrow> 'a response" where
  "paginateResults sortedResults pageNum psize =
     (let n = length sortedResults;
          pages = \<lceil>real n / real_of_int psize\<rceil>;
          paginatedResults =
            (case pageNum of
               Fin p \<Rightarrow> (let start = (p - 1) * psize
                         in slice sortedResults start (start + psize))
             | PosInf \<Rightarrow> []
             | NegInf \<Rightarrow> [])
      in \<lparr>results = paginatedResults, total = n, page = pageNum,
          totalPages = pages, pageSize = psize\<rparr>)"

section \<open>Query Parser\<close>

text \<open>
  One \<^verbatim>\<open>regex.exec\<close> of \<^verbatim>\<open>/"([^"]+)"|(\S+)/g\<close> on the rest of the keyword string: the
  leftmost match. At a position the first alternative matches when a double quote is
  followed by a non-empty run without double quote and a closing double quote (the
  greedy run cannot give a character back, each one being followed by a non-quote);
  otherwise the second alternative takes the maximal run of non-white-space; otherwise
  the search moves one code unit on. The result is capture 1, capture 2 and the text
  after the match, where the next \<^verbatim>\<open>exec\<close> starts.
\<close>

fun regexExec :: "jsstring \<Rightarrow> (jsstring option \<times> jsstring option \<times> jsstring) option" where
  "regexExec [] = None"
| "regexExec (c # cs) =
     (let body = takeWhile (\<lambda>x. x \<noteq> 34) cs;
          after = dropWhile (\<lambda>x. x \<noteq> 34) cs
      in if c = 34 \<and> body \<noteq> [] \<and> after \<noteq> [] then Some (Some body, None, tl after)
         else if \<not> isWhiteSpace c
           then Some (None, Some (takeWhile (\<lambda>x. \<not> isWhiteSpace x) (c # cs)),
                      dropWhile (\<lambda>x. \<not> isWhiteSpace x) (c # cs))
         else regexExec cs)"

lemma regexExec_shorter:
  "regexExec s = Some (m1, m2, rest) \<Longrightarrow> length rest < length s"
proof (induction s)
  case Nil
  then show ?case by simp
next
  case (Cons c cs)
  have a: "length (tl (dropWhile (\<lambda>x. x \<noteq> 34) cs)) \<le> length cs"
    using length_dropWhile_le [of "\<lambda>x. x \<noteq> 34" cs] by simp
  have b: "\<not> isWhiteSpace c \<Longrightarrow>
    length (dropWhile (\<lambda>x. \<not> isWhiteSpace x) (c # cs)) \<le> length cs"
    by (simp add: length_dropWhile_le)
  from Cons a b show ?case
    by (auto simp: Let_def less_Suc_eq_le split: if_splits)
qed

text \<open>
  The loop of \<^verbatim>\<open>parseSearchKeywords\<close> over the matches, the groups in the order they
  are pushed. \<^verbatim>\<open>match[1] || match[2] || ""\<close> is capture 1 when the quoted alternative
  matched (it is never empty) and capture 2 otherwise.
\<close>

function parseLoop :: "jsstring \<Rightarrow> jsstring list list" where
  "parseLoop s =
     (case regexExec s of
        None \<Rightarrow> []
      | Some (m1, m2, rest) \<Rightarrow>
          (let token = trim (case m1 of Some p \<Rightarrow> p
                             | None \<Rightarrow> (case m2 of Some w \<Rightarrow> w | None \<Rightarrow> []))
           in if token = [] then parseLoop rest
              else (let orParts = filter (\<lambda>part. length part > 0) (map trim (split 124 token))
                    in if length orParts > 0 then orParts # parseLoop rest
                       else parseLoop rest)))"
  by pat_completeness auto
termination
  by (relation "measure length") (auto dest: regexExec_shorter)

definition parseSearchKeywords :: "jsstring \<Rightarrow> jsstring list list" where
  "parseSearchKeywords rawKeyword = (if rawKeyword = [] then [] else parseLoop rawKeyword)"

section \<open>Sets and maps of the server\<close>

text \<open>
  A JavaScript \<^verbatim>\<open>Set\<close> iterates in insertion order and holds a value once: a list
  without duplicates, a new element at the end. A \<^verbatim>\<open>Map\<close> iterates in the order of
  first insertion of its keys; \<^verbatim>\<open>set\<close> on a present key overwrites the value in place:
  an association list under \<open>AList.update\<close>, \<open>AList.delete\<close> and \<open>map_of\<close>.
\<close>

definition set_add :: "'a \<Rightarrow> 'a list \<Rightarrow> 'a list" where
  "set_add x s = (if x \<in> set s then s else s @ [x])"

definition new_Set :: "'a list \<Rightarrow> 'a list" where
  "new_Set xs = foldl (\<lambda>s x. set_add x s) [] xs"

definition join :: "jsstring \<Rightarrow> jsstring list \<Rightarrow> jsstring" where
  "join sep parts = (case parts of [] \<Rightarrow> [] | p # ps \<Rightarrow> foldl (\<lambda>acc q. acc @ sep @ q) p ps)"

section \<open>Document Store and Token Index\<close>

record doc =
  content :: jsstring
  title :: jsstring
  path :: jsstring
  titleLower :: jsstring
  contentLower :: jsstring
  category :: jsstring

definition isTokenChar :: "nat \<Rightarrow> bool" where
  "isTokenChar c \<longleftrightarrow>
     (97 \<le> c \<and> c \<le> 122) \<or> (65 \<le> c \<and> c \<le> 90) \<or> (48 \<le> c \<and> c \<le> 57) \<or>
     (19968 \<le> c \<and> c \<le> 40869)"

text \<open>
  \<^verbatim>\<open>text.split(...)\<close> at the runs of code units that are neither ASCII letters or
  digits nor in U+4E00..U+9FA5: the pieces between the maximal such runs.
\<close>

function splitRuns :: "jsstring \<Rightarrow> jsstring list" where
  "splitRuns [] = [[]]"
| "splitRuns (c # cs) =
     (if \<not> isTokenChar c then [] # splitRuns (dropWhile (\<lambda>x. \<not> isTokenChar x) cs)
      else (case splitRuns cs of [] \<Rightarrow> [[c]] | p # ps \<Rightarrow> (c # p) # ps))"
  by pat_completeness auto
termination
  by (relation "measure length") (auto simp: less_Suc_eq_le length_dropWhile_le)

definition extractTokens :: "jsstring \<Rightarrow> jsstring list" where
  "extractTokens text =
     (if text = [] then []
      else new_Set (filter (\<lambda>segment. length segment \<ge> MIN_TOKEN_LENGTH)
                      (map trim (splitRuns text))))"

type_synonym tokenIndex = "(jsstring \<times> nat list) list"

definition indexDocumentTokens :: "nat \<Rightarrow> jsstring \<Rightarrow> jsstring \<Rightarrow> tokenIndex \<Rightarrow> tokenIndex" where
  "indexDocumentTokens docIndex tLower cLower tokenIndex =
     foldl (\<lambda>ti token.
              AList.update token
                (set_add docIndex (case map_of ti token of None \<Rightarrow> [] | Some bucket \<Rightarrow> bucket)) ti)
       tokenIndex (extractTokens (tLower @ [32] @ cLower))"

section \<open>Result Cache\<close>

record result =
  index :: nat
  rank :: int
  item :: doc

text \<open>
  A result also carries the display title, the paths, the preview, the content and the
  category of its document; all of them are computed from the stored document alone,
  which \<open>item\<close> holds.
\<close>

record entry =
  entryResults :: "result list"
  timestamp :: int

type_synonym cache = "(jsstring \<times> entry) list"

text \<open>\<^verbatim>\<open>getCachedResults\<close>, with the value of \<^verbatim>\<open>Date.now()\<close> as \<open>now\<close>.\<close>

definition getCachedResults :: "jsstring \<Rightarrow> int \<Rightarrow> cache \<Rightarrow> result list option \<times> cache" where
  "getCachedResults cacheKey now queryCache =
     (case map_of queryCache cacheKey of
        None \<Rightarrow> (None, queryCache)
      | Some e \<Rightarrow>
          if now - timestamp e > CACHE_TTL then (None, AList.delete cacheKey queryCache)
          else (Some (entryResults e), AList.update cacheKey e (AList.delete cacheKey queryCache)))"

text \<open>
  \<^verbatim>\<open>setCachedResults\<close>. \<^verbatim>\<open>queryCache.keys().next().value\<close> is the first key in
  insertion order; \<^verbatim>\<open>if (oldestKey)\<close> lets an empty key stay.
\<close>

definition setCachedResults :: "jsstring \<Rightarrow> result list \<Rightarrow> int \<Rightarrow> cache \<Rightarrow> cache" where
  "setCachedResults cacheKey rs now queryCache =
     (let c = AList.update cacheKey \<lparr>entryResults = rs, timestamp = now\<rparr> queryCache
      in if length c > CACHE_MAX_ENTRIES
         then (case c of [] \<Rightarrow> c
               | (oldestKey, _) # _ \<Rightarrow> if oldestKey \<noteq> [] then AList.delete oldestKey c else c)
         else c)"

text \<open>\<^verbatim>\<open>String(n)\<close> for a document ID: its decimal digits.\<close>

function showNat :: "nat \<Rightarrow> jsstring" where
  "showNat n = (if n < 10 then [48 + n] else showNat (n div 10) @ [48 + n mod 10])"
  by pat_completeness auto
termination
  by (relation "measure id") auto

definition buildCacheKey :: "jsstring list \<Rightarrow> bool \<Rightarrow> nat list option \<Rightarrow> jsstring \<Rightarrow> jsstring" where
  "buildCacheKey keywordSignatureParts isTitleOnly baseIndexesSet cat =
     (let basePart = (case baseIndexesSet of None \<Rightarrow> []
                      | Some b \<Rightarrow> join [44] (map showNat (sort b)))
      in (if isTitleOnly then [49] else [48]) @ [124] @ join [32] keywordSignatureParts @ [124] @
         basePart @ [124] @ cat)"

section \<open>Ranker\<close>

definition startsWith :: "jsstring \<Rightarrow> jsstring \<Rightarrow> bool" where
  "startsWith s keyword \<longleftrightarrow> take (length keyword) s = keyword"

text \<open>
  \<^verbatim>\<open>source.indexOf(keyword, startIndex)\<close>: the least position from \<open>startIndex\<close> on at
  which \<open>keyword\<close> stands in \<open>source\<close>; \<open>None\<close> is \<^verbatim>\<open>-1\<close>.
\<close>

fun findFirst :: "jsstring \<Rightarrow> jsstring \<Rightarrow> nat option" where
  "findFirst keyword [] = (if keyword = [] then Some 0 else None)"
| "findFirst keyword (c # cs) =
     (if startsWith (c # cs) keyword then Some 0
      else map_option Suc (findFirst keyword cs))"

definition indexOf :: "jsstring \<Rightarrow> jsstring \<Rightarrow> nat \<Rightarrow> nat option" where
  "indexOf source keyword startIndex =
     map_option (\<lambda>i. min startIndex (length source) + i)
       (findFirst keyword (drop startIndex source))"

lemma findFirst_bound:
  "findFirst keyword s = Some i \<Longrightarrow> i + length keyword \<le> length s"
proof (induction s arbitrary: i)
  case Nil
  then show ?case by (simp split: if_splits)
next
  case (Cons c cs)
  show ?case
  proof (cases "startsWith (c # cs) keyword")
    case True
    then have "length (take (length keyword) (c # cs)) = length keyword"
      unfolding startsWith_def by simp
    then have "length keyword \<le> length (c # cs)"
      by simp
    with True Cons.prems show ?thesis by simp
  next
    case False
    with Cons.prems obtain j where "findFirst keyword cs = Some j" "i = Suc j" by auto
    with Cons.IH show ?thesis by simp
  qed
qed

lemma indexOf_bound:
  assumes "indexOf source keyword startIndex = Some idx" and "keyword \<noteq> []"
  shows "startIndex < idx + length keyword \<and> idx + length keyword \<le> length source"
proof -
  from assms(1) obtain i where f: "findFirst keyword (drop startIndex source) = Some i"
    and idx: "idx = min startIndex (length source) + i"
    unfolding indexOf_def by auto
  from findFirst_bound [OF f] have b: "i + length keyword \<le> length source - startIndex"
    by simp
  from assms(2) have "0 < length keyword" by simp
  with b idx show ?thesis by linarith
qed

text \<open>
  The loop of \<^verbatim>\<open>countOccurrences\<close>. It is entered with a non-empty keyword only: the
  function returns \<open>0\<close> before the loop otherwise.
\<close>

function countLoop :: "jsstring \<Rightarrow> jsstring \<Rightarrow> nat \<Rightarrow> nat \<Rightarrow> nat" where
  "countLoop source keyword count startIndex =
     (if keyword = [] then count
      else (case indexOf source keyword startIndex of
              None \<Rightarrow> count
            | Some idx \<Rightarrow> countLoop source keyword (count + 1) (idx + length keyword)))"
  by pat_completeness auto
termination
proof (relation "measure (\<lambda>(source, keyword, count, startIndex). Suc (length source) - startIndex)")
  show "wf (measure (\<lambda>(source, keyword, count, startIndex). Suc (length source) - startIndex))"
    by simp
next
  fix source keyword :: jsstring and count startIndex idx :: nat
  assume g: "keyword \<noteq> []"
    and i: "indexOf source keyword startIndex = Some idx"
  from indexOf_bound [OF i g] show "((source, keyword, count + 1, idx + length keyword),
              (source, keyword, count, startIndex))
             \<in> measure (\<lambda>(source, keyword, count, startIndex). Suc (length source) - startIndex)"
    by (simp del: diff_Suc_less) linarith
qed

definition countOccurrences :: "jsstring \<Rightarrow> jsstring \<Rightarrow> nat" where
  "countOccurrences source keyword =
     (if source = [] \<or> keyword = [] then 0 else countLoop source keyword 0 0)"

section \<open>Candidate Selector\<close>

text \<open>\<^verbatim>\<open>ASCII_TOKEN_REGEX.test(keyword)\<close> for \<^verbatim>\<open>/^[a-z0-9]+$/\<close>.\<close>

definition asciiTokenTest :: "jsstring \<Rightarrow> bool" where
  "asciiTokenTest keyword \<longleftrightarrow>
     keyword \<noteq> [] \<and> list_all (\<lambda>c. (97 \<le> c \<and> c \<le> 122) \<or> (48 \<le> c \<and> c \<le> 57)) keyword"

text \<open>
  The loop of \<^verbatim>\<open>collectCandidateIndexes\<close> over the groups, from the values of
  \<^verbatim>\<open>candidateSet\<close> (\<open>None\<close> is \<^verbatim>\<open>null\<close>) and \<^verbatim>\<open>usedIndexedKeyword\<close> before a group to
  their values when the loop ends. Each \<^verbatim>\<open>continue\<close> goes on with the next group
  and both values unchanged; \<^verbatim>\<open>break\<close> ends the loop.
\<close>

fun collectLoop ::
  "tokenIndex \<Rightarrow> nat list option \<Rightarrow> jsstring list list \<Rightarrow> nat list option \<Rightarrow> bool \<Rightarrow>
   nat list option \<times> bool" where
  "collectLoop tokenIndex baseIndexesSet [] candidateSet usedIndexedKeyword =
     (candidateSet, usedIndexedKeyword)"
| "collectLoop tokenIndex baseIndexesSet (grp # groups) candidateSet usedIndexedKeyword =
     (if length grp = 0
      then collectLoop tokenIndex baseIndexesSet groups candidateSet usedIndexedKeyword
      else
        (let asciiCandidates =
               filter (\<lambda>keyword. length keyword \<ge> MIN_TOKEN_LENGTH \<and> asciiTokenTest keyword) grp
         in if length asciiCandidates \<noteq> 1
            then collectLoop tokenIndex baseIndexesSet groups candidateSet usedIndexedKeyword
            else
              (case map_of tokenIndex (hd asciiCandidates) of
                 None \<Rightarrow> collectLoop tokenIndex baseIndexesSet groups candidateSet usedIndexedKeyword
               | Some bucket \<Rightarrow>
                   if length bucket = 0
                   then collectLoop tokenIndex baseIndexesSet groups candidateSet usedIndexedKeyword
                   else
                     (let filteredBucket =
                            (case baseIndexesSet of
                               Some b \<Rightarrow> filter (\<lambda>idx. idx \<in> set b) bucket
                             | None \<Rightarrow> bucket);
                          candidateSet' =
                            (case candidateSet of
                               None \<Rightarrow> filteredBucket
                             | Some c \<Rightarrow> filter (\<lambda>idx. idx \<in> set c) filteredBucket)
                      in if length candidateSet' = 0 then (Some candidateSet', True)
                         else collectLoop tokenIndex baseIndexesSet groups
                                (Some candidateSet') True))))"

definition collectCandidateIndexes ::
  "tokenIndex \<Rightarrow> jsstring list list \<Rightarrow> nat list option \<Rightarrow> nat list option" where
  "collectCandidateIndexes tokenIndex keywordGroupsLower baseIndexesSet =
     (case collectLoop tokenIndex baseIndexesSet keywordGroupsLower None False of
        (candidateSet, usedIndexedKeyword) \<Rightarrow>
          if \<not> usedIndexedKeyword then baseIndexesSet
          else Some (case candidateSet of None \<Rightarrow> [] | Some c \<Rightarrow> c))"

section \<open>Ranking loop\<close>

text \<open>
  The loop over the alternatives of one group: the best title and content occurrence
  counts, from their values before an alternative.
\<close>

fun bestOccurrences :: "bool \<Rightarrow> doc \<Rightarrow> jsstring list \<Rightarrow> nat \<Rightarrow> nat \<Rightarrow> nat \<times> nat" where
  "bestOccurrences isTitleOnly d [] bestTitleOccurrences bestContentOccurrences =
     (bestTitleOccurrences, bestContentOccurrences)"
| "bestOccurrences isTitleOnly d (kwLower # rest) bestTitleOccurrences bestContentOccurrences =
     (if kwLower = []
      then bestOccurrences isTitleOnly d rest bestTitleOccurrences bestContentOccurrences
      else
        (let titleOccurrences = countOccurrences (titleLower d) kwLower;
             bt = (if titleOccurrences > bestTitleOccurrences then titleOccurrences
                   else bestTitleOccurrences);
             bc = (if \<not> isTitleOnly
                   then (let contentOccurrences = countOccurrences (contentLower d) kwLower
                         in if contentOccurrences > bestContentOccurrences
                            then contentOccurrences else bestContentOccurrences)
                   else bestContentOccurrences)
         in bestOccurrences isTitleOnly d rest bt bc))"

text \<open>
  The loop over the groups, from \<^verbatim>\<open>titleRank\<close> and \<^verbatim>\<open>contentRank\<close> before a group:
  \<open>None\<close> when a group is not matched (\<^verbatim>\<open>matchedAllKeywords = false; break\<close>), else
  the two ranks after the last group.
\<close>

fun rankGroups :: "bool \<Rightarrow> doc \<Rightarrow> jsstring list list \<Rightarrow> nat \<Rightarrow> nat \<Rightarrow> (nat \<times> nat) option" where
  "rankGroups isTitleOnly d [] titleRank contentRank = Some (titleRank, contentRank)"
| "rankGroups isTitleOnly d (grp # groups) titleRank contentRank =
     (case bestOccurrences isTitleOnly d grp 0 0 of
        (bestTitleOccurrences, bestContentOccurrences) \<Rightarrow>
          (let keywordMatched =
                 (if isTitleOnly then bestTitleOccurrences > 0
                  else bestTitleOccurrences > 0 \<or> bestContentOccurrences > 0)
           in if \<not> keywordMatched then None
              else rankGroups isTitleOnly d groups
                     (if bestTitleOccurrences > 0 then titleRank * (bestTitleOccurrences + 1)
                      else titleRank)
                     (if \<not> isTitleOnly \<and> bestContentOccurrences > 0
                      then contentRank * (bestContentOccurrences + 1) else contentRank)))"

text \<open>
  The score is computed in floating point:
  \<^verbatim>\<open>Math.round(Math.pow(titleRank, 1 / groupCount) * 20)\<close> and
  \<^verbatim>\<open>Math.round(Math.pow(contentRank, 1 / groupCount))\<close>. The rounded power is a
  parameter \<open>roundPow\<close> of the model, \<open>roundPow b g k\<close> standing for
  \<^verbatim>\<open>Math.round(Math.pow(b, 1 / g) * k)\<close>; nothing below depends on its values.
\<close>

type_synonym roundPow = "nat \<Rightarrow> nat \<Rightarrow> nat \<Rightarrow> int"

definition totalRank :: "roundPow \<Rightarrow> bool \<Rightarrow> nat \<Rightarrow> nat \<Rightarrow> nat \<Rightarrow> int" where
  "totalRank roundPow isTitleOnly groupCount titleRank contentRank =
     roundPow titleRank groupCount 20 +
     (if isTitleOnly then 0 else roundPow contentRank groupCount 1)"

text \<open>
  The loop over the search space: \<^verbatim>\<open>searchData[index]\<close> is \<^verbatim>\<open>undefined\<close> past the end of
  the store and the index is skipped; a document that matches every group is pushed.
\<close>

fun rankLoop ::
  "roundPow \<Rightarrow> doc list \<Rightarrow> jsstring list list \<Rightarrow> bool \<Rightarrow> nat list \<Rightarrow> result list" where
  "rankLoop roundPow searchData keywordGroupsLower isTitleOnly [] = []"
| "rankLoop roundPow searchData keywordGroupsLower isTitleOnly (i # searchSpace) =
     (if \<not> i < length searchData
      then rankLoop roundPow searchData keywordGroupsLower isTitleOnly searchSpace
      else
        (case rankGroups isTitleOnly (searchData ! i) keywordGroupsLower 1 1 of
           None \<Rightarrow> rankLoop roundPow searchData keywordGroupsLower isTitleOnly searchSpace
         | Some (titleRank, contentRank) \<Rightarrow>
             (let groupCount = (if length keywordGroupsLower = 0 then 1
                                else length keywordGroupsLower)
              in \<lparr>index = i,
                  rank = totalRank roundPow isTitleOnly groupCount titleRank contentRank,
                  item = searchData ! i\<rparr>
                 # rankLoop roundPow searchData keywordGroupsLower isTitleOnly searchSpace)))"

section \<open>Sorting the results\<close>

text \<open>The comparator handed to \<^verbatim>\<open>results.sort\<close>.\<close>

definition compareResults :: "result \<Rightarrow> result \<Rightarrow> int" where
  "compareResults a b =
     (if rank b \<noteq> rank a then rank b - rank a else int (index a) - int (index b))"

text \<open>
  \<^verbatim>\<open>Array.prototype.sort\<close> with a comparator is a stable sort: \<open>a\<close> is placed before
  \<open>b\<close> when the comparator is negative on \<open>(a, b)\<close>, elements that compare as \<open>0\<close> keep
  their order. It is modelled by insertion from the right.
\<close>

fun insertSorted :: "('a \<Rightarrow> 'a \<Rightarrow> int) \<Rightarrow> 'a \<Rightarrow> 'a list \<Rightarrow> 'a list" where
  "insertSorted cmp x [] = [x]"
| "insertSorted cmp x (y # ys) =
     (if cmp x y \<le> 0 then x # y # ys else y # insertSorted cmp x ys)"

definition sortWith :: "('a \<Rightarrow> 'a \<Rightarrow> int) \<Rightarrow> 'a list \<Rightarrow> 'a list" where
  "sortWith cmp xs = foldr (insertSorted cmp) xs []"

section \<open>State of the server and loading\<close>

record state =
  searchData :: "doc list"
  tokenIndex :: tokenIndex
  queryCache :: cache

text \<open>
  \<^verbatim>\<open>resetInMemoryStructures\<close>, and what \<^verbatim>\<open>loadSearchData\<close> does with each record it has
  built: the record is pushed on the store and its tokens are indexed under its
  position.
\<close>

definition resetInMemoryStructures :: state where
  "resetInMemoryStructures = \<lparr>searchData = [], tokenIndex = [], queryCache = []\<rparr>"

definition pushRecord :: "state \<Rightarrow> doc \<Rightarrow> state" where
  "pushRecord st r =
     (let docIndex = length (searchData st)
      in st\<lparr>searchData := searchData st @ [r],
            tokenIndex := indexDocumentTokens docIndex (titleLower r) (contentLower r)
                            (tokenIndex st)\<rparr>)"

definition loadSearchData :: "doc list \<Rightarrow> state" where
  "loadSearchData records = foldl pushRecord resetInMemoryStructures records"

section \<open>The search request\<close>

text \<open>
  A query parameter of \<^verbatim>\<open>GET /api/search\<close> as the query parser delivers it: a string
  (\<open>Str\<close>), or a value that is no string, an array for a repeated parameter or an object
  (\<open>NonStr\<close>, with the string that \<^verbatim>\<open>String\<close> makes of the value, which is what
  \<^verbatim>\<open>parseInt\<close> and \<^verbatim>\<open>RegExp.prototype.exec\<close> read). A string is falsy when it is empty;
  an array or object is never falsy. A parameter is absent (\<open>None\<close>) or present, and an
  absent one takes the default of the destructuring.
\<close>

datatype param = Str jsstring | NonStr jsstring

fun paramString :: "param \<Rightarrow> jsstring" where
  "paramString (Str s) = s"
| "paramString (NonStr s) = s"

record request =
  q_keyword :: "param option"
  q_titleOnly :: "param option"
  q_page :: "param option"
  q_pageSize :: "param option"
  q_baseIndexes :: "param option"
  q_category :: "param option"

definition emptyResponse :: "jsnum \<Rightarrow> int \<Rightarrow> result response" where
  "emptyResponse pageNum sz =
     \<lparr>results = [], total = 0, page = pageNum, totalPages = 0, pageSize = sz\<rparr>"

text \<open>
  The set built from \<^verbatim>\<open>baseIndexes\<close>: the pieces between commas, each read by
  \<^verbatim>\<open>parseInt\<close>, those kept that are integers in \<open>[0, searchData.length)\<close>.
\<close>

definition parseBaseIndexes :: "nat \<Rightarrow> jsstring \<Rightarrow> nat list" where
  "parseBaseIndexes n baseIndexes =
     new_Set (map (\<lambda>idx. nat (the idx))
                (filter (\<lambda>idx. case idx of None \<Rightarrow> False | Some i \<Rightarrow> 0 \<le> i \<and> i < int n)
                   (map parseInt (split 44 baseIndexes))))"

text \<open>
  The handler from \<^verbatim>\<open>collectCandidateIndexes\<close> to \<^verbatim>\<open>results.sort\<close>: the list that is
  stored in the cache and paginated. The two early returns store and paginate \<open>[]\<close>.
\<close>

definition computeResults ::
  "roundPow \<Rightarrow> doc list \<Rightarrow> tokenIndex \<Rightarrow> jsstring list list \<Rightarrow> bool \<Rightarrow> nat list option \<Rightarrow>
   jsstring \<Rightarrow> result list" where
  "computeResults roundPow sd ti keywordGroupsLower isTitleOnly baseIndexesSet categoryFilter =
     (let candidateSet = collectCandidateIndexes ti keywordGroupsLower baseIndexesSet
      in if candidateSet = Some [] then []
         else
           (let searchSpace =
                  (case candidateSet of
                     Some c \<Rightarrow> c
                   | None \<Rightarrow> (case baseIndexesSet of Some b \<Rightarrow> b | None \<Rightarrow> [0..<length sd]));
                searchSpace' =
                  (if categoryFilter \<noteq> []
                   then filter (\<lambda>idx. idx < length sd \<and> category (sd ! idx) = categoryFilter)
                          searchSpace
                   else searchSpace)
            in if categoryFilter \<noteq> [] \<and> length searchSpace' = 0 then []
               else sortWith compareResults
                      (rankLoop roundPow sd keywordGroupsLower isTitleOnly searchSpace')))"

text \<open>
  The values the handler derives from the request before it looks into the cache:
  \<^verbatim>\<open>pageNum\<close>, \<^verbatim>\<open>size\<close>, \<^verbatim>\<open>baseIndexesSet\<close> (\<open>None\<close> is \<^verbatim>\<open>null\<close>: a \<^verbatim>\<open>baseIndexes\<close>
  that is no string, or is empty after trimming, is no restriction),
  \<^verbatim>\<open>keywordGroupsLower\<close>, \<^verbatim>\<open>isTitleOnly\<close>, \<^verbatim>\<open>categoryFilter\<close> (a \<^verbatim>\<open>category\<close> that is
  no string is no filter) and \<^verbatim>\<open>cacheKey\<close>. \<^verbatim>\<open>String.prototype.toLowerCase\<close> is a
  parameter of the model, as its Unicode tables are no part of the server.
\<close>

definition pageNum_req :: "request \<Rightarrow> jsnum" where
  "pageNum_req req = pageNum_of (map_option paramString (q_page req))"

definition size_req :: "request \<Rightarrow> int" where
  "size_req req = size_of (map_option paramString (q_pageSize req))"

definition baseIndexesSet_of :: "nat \<Rightarrow> request \<Rightarrow> nat list option" where
  "baseIndexesSet_of n req =
     (case q_baseIndexes req of
        None \<Rightarrow> None
      | Some (NonStr v) \<Rightarrow> None
      | Some (Str baseIndexes) \<Rightarrow>
          if length (trim baseIndexes) > 0 then Some (parseBaseIndexes n baseIndexes)
          else None)"

definition keywordGroupsLower_of :: "(jsstring \<Rightarrow> jsstring) \<Rightarrow> jsstring \<Rightarrow> jsstring list list" where
  "keywordGroupsLower_of toLowerCase keyword =
     map (\<lambda>grp. map (\<lambda>token. toLowerCase token) grp) (parseSearchKeywords keyword)"

definition isTitleOnly_of :: "request \<Rightarrow> bool" where
  "isTitleOnly_of req \<longleftrightarrow>
     (case q_titleOnly req of None \<Rightarrow> False | Some t \<Rightarrow> t = Str (js ''true''))"

definition categoryFilter_of :: "(jsstring \<Rightarrow> jsstring) \<Rightarrow> request \<Rightarrow> jsstring" where
  "categoryFilter_of toLowerCase req =
     (let rawCategory =
            (case q_category req of
               None \<Rightarrow> []
             | Some (NonStr v) \<Rightarrow> []
             | Some (Str c) \<Rightarrow> trim c)
      in if rawCategory \<noteq> [] \<and> toLowerCase rawCategory \<noteq> js ''all'' then rawCategory else [])"

definition cacheKey_of :: "(jsstring \<Rightarrow> jsstring) \<Rightarrow> nat \<Rightarrow> request \<Rightarrow> jsstring \<Rightarrow> jsstring" where
  "cacheKey_of toLowerCase n req keyword =
     buildCacheKey (map (join [124]) (keywordGroupsLower_of toLowerCase keyword))
       (isTitleOnly_of req) (baseIndexesSet_of n req) (categoryFilter_of toLowerCase req)"

text \<open>
  The handler of \<^verbatim>\<open>GET /api/search\<close>: the response and the state after it (only the
  cache changes). \<open>now\<close> is the value of \<^verbatim>\<open>Date.now()\<close> during the request. The
  keyword is falsy when it is absent or the empty string; otherwise
  \<^verbatim>\<open>parseSearchKeywords\<close> reads the string of the keyword.
\<close>

definition search ::
  "(jsstring \<Rightarrow> jsstring) \<Rightarrow> roundPow \<Rightarrow> request \<Rightarrow> int \<Rightarrow> state \<Rightarrow> result response \<times> state" where
  "search toLowerCase roundPow req now st =
     (let pageNum = pageNum_req req;
          sz = size_req req
      in case q_keyword req of
           None \<Rightarrow> (emptyResponse pageNum sz, st)
         | Some kwParam \<Rightarrow>
             if kwParam = Str [] then (emptyResponse pageNum sz, st)
             else
               (let keyword = paramString kwParam;
                    baseIndexesSet = baseIndexesSet_of (length (searchData st)) req
                in if baseIndexesSet = Some [] then (emptyResponse pageNum sz, st)
                   else if length (parseSearchKeywords keyword) = 0
                   then (emptyResponse pageNum sz, st)
                   else
                     (let keywordGroupsLower = keywordGroupsLower_of toLowerCase keyword;
                          isTitleOnly = isTitleOnly_of req;
                          categoryFilter = categoryFilter_of toLowerCase req;
                          cacheKey = cacheKey_of toLowerCase (length (searchData st)) req keyword
                      in case getCachedResults cacheKey now (queryCache st) of
                           (Some cachedResults, qc) \<Rightarrow>
                             (paginateResults cachedResults pageNum sz, st\<lparr>queryCache := qc\<rparr>)
                         | (None, qc) \<Rightarrow>
                             (let rs = computeResults roundPow (searchData st) (tokenIndex st)
                                         keywordGroupsLower isTitleOnly baseIndexesSet
                                         categoryFilter
                              in (paginateResults rs pageNum sz,
                                  st\<lparr>queryCache := setCachedResults cacheKey rs now qc\<rparr>)))))"

text \<open>
  The states of a server: the state after loading any records, and the state after
  any request in such a state.
\<close>

inductive reachable :: "(jsstring \<Rightarrow> jsstring) \<Rightarrow> roundPow \<Rightarrow> state \<Rightarrow> bool"
  for toLowerCase :: "jsstring \<Rightarrow> jsstring" and roundPow :: roundPow where
  loaded: "reachable toLowerCase roundPow (loadSearchData records)"
| served: "reachable toLowerCase roundPow st \<Longrightarrow>
     reachable toLowerCase roundPow (snd (search toLowerCase roundPow req now st))"

section \<open>Concrete inputs\<close>

text \<open>
  For the evaluation of the model at concrete inputs: lower-casing of the ASCII
  letters, the rounded power for one group (\<^verbatim>\<open>Math.pow(b, 1)\<close> is \<open>b\<close>), a
  request with a keyword only, and the record the loader builds from a title and a
  content that are already lower-case and have no line breaks, with no path (its
  category is then the default one).
\<close>

definition asciiLower :: "jsstring \<Rightarrow> jsstring" where
  "asciiLower s = map (\<lambda>c. if 65 \<le> c \<and> c \<le> 90 then c + 32 else c) s"

definition roundPow1 :: roundPow where
  "roundPow1 b g k = int (b * k)"

definition DEFAULT_CATEGORY :: jsstring where
  "DEFAULT_CATEGORY = [26410, 20998, 31867]"

definition plainDoc :: "string \<Rightarrow> string \<Rightarrow> doc" where
  "plainDoc t c =
     \<lparr>content = js c, title = js t, path = [], titleLower = js t, contentLower = js c,
      category = DEFAULT_CATEGORY\<rparr>"

definition keywordRequest :: "jsstring \<Rightarrow> request" where
  "keywordRequest k =
     \<lparr>q_keyword = Some (Str k), q_titleOnly = None, q_page = None, q_pageSize = None,
      q_baseIndexes = None, q_category = None\<rparr>"

text \<open>
  Three stores: one whose second title holds the first as a part of a longer word, the
  same store without its first document, and one with another single title.
\<close>

definition storeAbCabd :: state where
  "storeAbCabd = loadSearchData [plainDoc ''ab'' '''', plainDoc ''cabd'' '''']"

definition storeCabd :: state where
  "storeCabd = loadSearchData [plainDoc ''cabd'' '''']"

definition storePizza :: state where
  "storePizza = loadSearchData [plainDoc ''pizza'' '''']"

definition baseRequest :: "jsstring \<Rightarrow> jsstring \<Rightarrow> request" where
  "baseRequest k b = (keywordRequest k)\<lparr>q_baseIndexes := Some (Str b)\<rparr>"

text \<open>
  A store of three titles that hold \<^verbatim>\<open>guide\<close> once, twice and once, and a cache that
  is full: 120 entries with the keys \<^verbatim>\<open>a\<close>, \<^verbatim>\<open>aa\<close>, \<^verbatim>\<open>aaa\<close> and so on, inserted in
  this order.
\<close>

definition storeGuides :: state where
  "storeGuides =
     loadSearchData [plainDoc ''guide'' '''', plainDoc ''guide guide'' '''', plainDoc ''a guide'' '''']"

definition fullCache :: cache where
  "fullCache = map (\<lambda>n. (replicate (Suc n) 97, \<lparr>entryResults = [], timestamp = 0\<rparr>)) [0..<120]"

text \<open>
  Requests with a keyword and a repeated \<^verbatim>\<open>baseIndexes\<close> parameter, which arrives as
  an array (\<open>v\<close> is the string of the array, its entries joined by commas), and with a
  keyword, a \<^verbatim>\<open>baseIndexes\<close> string and a category.
\<close>

definition arrayBaseRequest :: "jsstring \<Rightarrow> jsstring \<Rightarrow> request" where
  "arrayBaseRequest k v = (keywordRequest k)\<lparr>q_baseIndexes := Some (NonStr v)\<rparr>"

definition categoryBaseRequest :: "jsstring \<Rightarrow> jsstring \<Rightarrow> jsstring \<Rightarrow> request" where
  "categoryBaseRequest k b c = (baseRequest k b)\<lparr>q_category := Some (Str c)\<rparr>"

section \<open>Matching, in the words of the specification\<close>

text \<open>
  The best occurrence count of a group in a text is the maximum of the occurrence
  counts of its alternatives. A group is satisfied by a document if its best title
  count is positive or, when content is searched, its best content count is positive.
  A document matches a query if it satisfies every group.
\<close>

definition bestCount :: "jsstring \<Rightarrow> jsstring list \<Rightarrow> nat" where
  "bestCount source grp = foldr max (map (countOccurrences source) grp) 0"

definition groupSatisfied :: "bool \<Rightarrow> doc \<Rightarrow> jsstring list \<Rightarrow> bool" where
  "groupSatisfied isTitleOnly d grp \<longleftrightarrow>
     (if isTitleOnly then bestCount (titleLower d) grp > 0
      else bestCount (titleLower d) grp > 0 \<or> bestCount (contentLower d) grp > 0)"

definition matchesQuery :: "bool \<Rightarrow> doc \<Rightarrow> jsstring list list \<Rightarrow> bool" where
  "matchesQuery isTitleOnly d groups \<longleftrightarrow> list_all (groupSatisfied isTitleOnly d) groups"

section \<open>Predicates and abbreviations of the proofs\<close>

text \<open>The result that the ranking loop pushes for a matching document.\<close>

definition resultAt :: "roundPow \<Rightarrow> doc list \<Rightarrow> jsstring list list \<Rightarrow> bool \<Rightarrow> nat \<Rightarrow> result" where
  "resultAt roundPow sd groups isTitleOnly i =
     (case the (rankGroups isTitleOnly (sd ! i) groups 1 1) of
        (titleRank, contentRank) \<Rightarrow>
          \<lparr>index = i,
           rank = totalRank roundPow isTitleOnly
                    (if length groups = 0 then 1 else length groups) titleRank contentRank,
           item = sd ! i\<rparr>)"

text \<open>
  The order of a response: a result stands before another when its rank is higher, or
  the ranks are equal and its document ID is lower.
\<close>

definition before :: "result \<Rightarrow> result \<Rightarrow> bool" where
  "before a b \<longleftrightarrow> rank a > rank b \<or> (rank a = rank b \<and> index a < index b)"

text \<open>
  The search space of the ranking loop: the candidates, else the base set, else the
  whole store, filtered by the category when one is given.
\<close>

definition searchSpaceOf ::
  "doc list \<Rightarrow> tokenIndex \<Rightarrow> jsstring list list \<Rightarrow> nat list option \<Rightarrow> jsstring \<Rightarrow> nat list" where
  "searchSpaceOf sd ti groups baseIndexesSet categoryFilter =
     filter (\<lambda>idx. categoryFilter = [] \<or> (idx < length sd \<and> category (sd ! idx) = categoryFilter))
       (case collectCandidateIndexes ti groups baseIndexesSet of
          Some c \<Rightarrow> c
        | None \<Rightarrow> (case baseIndexesSet of Some b \<Rightarrow> b | None \<Rightarrow> [0..<length sd]))"

text \<open>
  The bucket that a group contributes to the candidate selection: the non-empty bucket
  of its single indexable alternative, if it has exactly one and that one has a
  non-empty bucket.
\<close>

definition usableBucket :: "tokenIndex \<Rightarrow> jsstring list \<Rightarrow> nat list option" where
  "usableBucket ti grp =
     (case filter (\<lambda>keyword. length keyword \<ge> MIN_TOKEN_LENGTH \<and> asciiTokenTest keyword) grp of
        [keyword] \<Rightarrow> (case map_of ti keyword of
                         None \<Rightarrow> None
                       | Some bucket \<Rightarrow> if bucket = [] then None else Some bucket)
      | _ \<Rightarrow> None)"

text \<open>
  An entry of \<^verbatim>\<open>baseIndexes\<close> is a valid document ID of a store of \<open>n\<close> documents when
  \<^verbatim>\<open>parseInt\<close> reads it as an integer in \<open>[0, n)\<close>.
\<close>

definition validEntry :: "nat \<Rightarrow> jsstring \<Rightarrow> bool" where
  "validEntry n e \<longleftrightarrow> (case parseInt e of None \<Rightarrow> False | Some i \<Rightarrow> 0 \<le> i \<and> i < int n)"

text \<open>
  The invariant of the Result Cache: at most \<open>CACHE_MAX_ENTRIES\<close> entries, each key
  once (it is a \<^verbatim>\<open>Map\<close>), and no empty key.
\<close>

definition cacheInv :: "cache \<Rightarrow> bool" where
  "cacheInv c \<longleftrightarrow>
     length c \<le> CACHE_MAX_ENTRIES \<and> distinct (map fst c) \<and> [] \<notin> set (map fst c)"

text \<open>
  The invariant of the state behind the order of a response: every bucket of the Token
  Index holds a document once (it is a \<^verbatim>\<open>Set\<close>), and every cached list is in the order
  of a response.
\<close>

definition stateInv :: "state \<Rightarrow> bool" where
  "stateInv st \<longleftrightarrow>
     list_all (\<lambda>kb. distinct (snd kb)) (tokenIndex st) \<and>
     list_all (\<lambda>ke. sorted_wrt before (entryResults (snd ke))) (queryCache st)"

section \<open>Numbers\<close>

text \<open>An integer below \<open>2^53\<close> in absolute value is its own double.\<close>

lemma bitLength_le: "bitLength m \<le> k \<longleftrightarrow> m < 2 ^ k"
proof (induction k arbitrary: m)
  case 0
  show ?case by (subst bitLength.simps) simp
next
  case (Suc k)
  have "bitLength m \<le> Suc k \<longleftrightarrow> m = 0 \<or> bitLength (m div 2) \<le> k"
    by (subst bitLength.simps) simp
  also have "\<dots> \<longleftrightarrow> m = 0 \<or> m div 2 < 2 ^ k" by (simp only: Suc.IH)
  also have "\<dots> \<longleftrightarrow> m < 2 ^ Suc k" by auto
  finally show ?case .
qed

lemma toNumber_exact: "\<bar>i\<bar> < 2 ^ 53 \<Longrightarrow> toNumber i = Fin i"
proof -
  assume "\<bar>i\<bar> < 2 ^ 53"
  then have "nat \<bar>i\<bar> < 2 ^ 53" by (simp add: nat_less_iff)
  then have "roundToDouble (nat \<bar>i\<bar>) = Some (nat \<bar>i\<bar>)"
    by (simp add: roundToDouble_def bitLength_le)
  then show ?thesis by (simp add: toNumber_def)
qed

text \<open>
  The first integer that is not its own double lies between two doubles and goes to
  the even one.
\<close>

lemma toNumber_tie: "toNumber 9007199254740993 = Fin 9007199254740992"
proof -
  have "bitLength 9007199254740993 = 54" by code_simp
  then show ?thesis by (simp add: toNumber_def roundToDouble_def Let_def)
qed

section \<open>Ranking decides by the occurrence counts\<close>

lemma countOccurrences_empty_keyword [simp]: "countOccurrences source [] = 0"
  by (simp add: countOccurrences_def)

lemma bestOccurrences_eq:
  "bestOccurrences isTitleOnly d grp bt bc =
     (max bt (bestCount (titleLower d) grp),
      if isTitleOnly then bc else max bc (bestCount (contentLower d) grp))"
proof (induction grp arbitrary: bt bc)
  case Nil
  show ?case by (simp add: bestCount_def)
next
  case (Cons k rest)
  have step: "bestCount s (k' # rest) = max (countOccurrences s k') (bestCount s rest)" for s k'
    by (simp add: bestCount_def)
  show ?case
  proof (cases "k = []")
    case True
    then show ?thesis by (simp add: Cons.IH step)
  next
    case False
    then show ?thesis
      by (simp add: Cons.IH step Let_def max_def)
  qed
qed

lemma rankGroups_None_iff:
  "rankGroups isTitleOnly d groups tr cr = None \<longleftrightarrow> \<not> matchesQuery isTitleOnly d groups"
proof (induction groups arbitrary: tr cr)
  case Nil
  show ?case by (simp add: matchesQuery_def)
next
  case (Cons g gs)
  have m: "matchesQuery isTitleOnly d (g # gs) \<longleftrightarrow>
           groupSatisfied isTitleOnly d g \<and> matchesQuery isTitleOnly d gs"
    by (simp add: matchesQuery_def)
  show ?case
  proof (cases isTitleOnly)
    case True
    with Cons.IH show ?thesis
      unfolding m by (simp add: bestOccurrences_eq Let_def groupSatisfied_def)
  next
    case False
    with Cons.IH show ?thesis
      unfolding m by (simp add: bestOccurrences_eq Let_def groupSatisfied_def)
  qed
qed

lemma index_resultAt [simp]: "index (resultAt roundPow sd groups isTitleOnly i) = i"
  by (simp add: resultAt_def split: prod.splits)

lemma rankLoop_eq:
  "rankLoop roundPow sd groups isTitleOnly searchSpace =
     map (resultAt roundPow sd groups isTitleOnly)
       (filter (\<lambda>i. i < length sd \<and> matchesQuery isTitleOnly (sd ! i) groups) searchSpace)"
proof (induction searchSpace)
  case Nil
  show ?case by simp
next
  case (Cons i rest)
  show ?case
  proof (cases "i < length sd")
    case False
    then show ?thesis using Cons.IH by simp
  next
    case True
    show ?thesis
    proof (cases "rankGroups isTitleOnly (sd ! i) groups 1 1")
      case None
      then have "\<not> matchesQuery isTitleOnly (sd ! i) groups"
        by (simp add: rankGroups_None_iff)
      with None True show ?thesis using Cons.IH by simp
    next
      case (Some p)
      then have "matchesQuery isTitleOnly (sd ! i) groups"
        using rankGroups_None_iff [of isTitleOnly "sd ! i" groups 1 1] by simp
      with Some True show ?thesis using Cons.IH
        by (cases p) (simp add: resultAt_def Let_def)
    qed
  qed
qed

lemma map_index_rankLoop:
  "map index (rankLoop roundPow sd groups isTitleOnly searchSpace) =
     filter (\<lambda>i. i < length sd \<and> matchesQuery isTitleOnly (sd ! i) groups) searchSpace"
  by (simp add: rankLoop_eq comp_def)

section \<open>The sort of the results\<close>

lemma compareResults_le:
  "compareResults a b \<le> 0 \<longleftrightarrow> rank a > rank b \<or> (rank a = rank b \<and> index a \<le> index b)"
  by (auto simp: compareResults_def)

lemma compareResults_trans:
  "compareResults a b \<le> 0 \<Longrightarrow> compareResults b c \<le> 0 \<Longrightarrow> compareResults a c \<le> 0"
  unfolding compareResults_le by auto

lemma compareResults_total: "compareResults a b \<le> 0 \<or> compareResults b a \<le> 0"
  unfolding compareResults_le by auto

lemma set_insertSorted [simp]: "set (insertSorted cmp x ys) = insert x (set ys)"
  by (induction ys) auto

lemma set_sortWith [simp]: "set (sortWith cmp xs) = set xs"
  by (induction xs) (simp_all add: sortWith_def)

lemma length_insertSorted [simp]: "length (insertSorted cmp x ys) = Suc (length ys)"
  by (induction ys) auto

lemma length_sortWith [simp]: "length (sortWith cmp xs) = length xs"
  by (induction xs) (simp_all add: sortWith_def)

lemma sortWith_Cons: "sortWith cmp (x # xs) = insertSorted cmp x (sortWith cmp xs)"
  by (simp add: sortWith_def)

lemma sortWith_Nil [simp]: "sortWith cmp [] = []"
  by (simp add: sortWith_def)

lemma distinct_map_insertSorted:
  "distinct (map f (insertSorted cmp x ys)) \<longleftrightarrow> f x \<notin> f ` set ys \<and> distinct (map f ys)"
  by (induction ys) auto

lemma distinct_map_sortWith:
  "distinct (map f (sortWith cmp xs)) \<longleftrightarrow> distinct (map f xs)"
  by (induction xs) (simp_all add: sortWith_Cons distinct_map_insertSorted)

lemma sorted_insertSorted:
  "sorted_wrt (\<lambda>a b. compareResults a b \<le> 0) ys \<Longrightarrow>
   sorted_wrt (\<lambda>a b. compareResults a b \<le> 0) (insertSorted compareResults x ys)"
proof (induction ys)
  case Nil
  show ?case by simp
next
  case (Cons y ys)
  show ?case
  proof (cases "compareResults x y \<le> 0")
    case True
    with Cons.prems show ?thesis
      by (auto intro: compareResults_trans)
  next
    case False
    then have "compareResults y x \<le> 0" using compareResults_total [of x y] by simp
    with False Cons show ?thesis by auto
  qed
qed

lemma sorted_sortWith:
  "sorted_wrt (\<lambda>a b. compareResults a b \<le> 0) (sortWith compareResults xs)"
  by (induction xs) (simp_all add: sortWith_Cons sorted_insertSorted)

lemma sorted_distinct_before:
  assumes "sorted_wrt (\<lambda>a b. compareResults a b \<le> 0) xs" and "distinct (map index xs)"
  shows "sorted_wrt before xs"
proof -
  have "before (xs ! i) (xs ! j)" if "i < j" "j < length xs" for i j
  proof -
    from assms(1) that have le: "compareResults (xs ! i) (xs ! j) \<le> 0"
      by (simp add: sorted_wrt_iff_nth_less)
    from that have "i < length (map index xs)" "j < length (map index xs)" "i \<noteq> j"
      by simp_all
    with assms(2) have "map index xs ! i \<noteq> map index xs ! j"
      unfolding distinct_conv_nth by blast
    with that have "index (xs ! i) \<noteq> index (xs ! j)" by simp
    with le show ?thesis unfolding compareResults_le before_def by auto
  qed
  then show ?thesis by (simp add: sorted_wrt_iff_nth_less)
qed

text \<open>A list in the order of a response is determined by the set of its elements.\<close>

lemma before_unique:
  "sorted_wrt before xs \<Longrightarrow> sorted_wrt before ys \<Longrightarrow> set xs = set ys \<Longrightarrow> xs = ys"
proof (induction xs arbitrary: ys)
  case Nil
  then show ?case by simp
next
  case (Cons x xs)
  from Cons.prems(3) obtain y ys' where ys: "ys = y # ys'" by (cases ys) auto
  have irr: "\<not> before a a" for a by (simp add: before_def)
  have asym: "before a b \<Longrightarrow> \<not> before b a" for a b by (auto simp: before_def)
  from Cons.prems(1) have xlt: "\<forall>z \<in> set xs. before x z" and sx: "sorted_wrt before xs" by simp_all
  from Cons.prems(2) ys have ylt: "\<forall>z \<in> set ys'. before y z" and sy: "sorted_wrt before ys'"
    by simp_all
  have xy: "x = y"
  proof (rule ccontr)
    assume ne: "x \<noteq> y"
    from Cons.prems(3) ys have "x \<in> set (y # ys')" by auto
    with ne have "before y x" using ylt by auto
    moreover from Cons.prems(3) ys have "y \<in> set (x # xs)" by auto
    with ne have "before x y" using xlt by auto
    ultimately show False using asym by blast
  qed
  have "x \<notin> set xs" using xlt irr by blast
  moreover have "y \<notin> set ys'" using ylt irr by blast
  ultimately have "set xs = set ys'" using Cons.prems(3) ys xy by auto
  with Cons.IH [OF sx sy] xy ys show ?case by simp
qed

text \<open>Sorting commutes with dropping elements.\<close>

lemma insertSorted_least:
  "\<forall>z \<in> set zs. cmp x z \<le> 0 \<Longrightarrow> insertSorted cmp x zs = x # zs"
  by (cases zs) auto

lemma filter_insertSorted:
  assumes "sorted_wrt (\<lambda>a b. compareResults a b \<le> 0) ys"
  shows "filter P (insertSorted compareResults x ys) =
         (if P x then insertSorted compareResults x (filter P ys) else filter P ys)"
  using assms
proof (induction ys)
  case Nil
  show ?case by simp
next
  case (Cons y ys)
  show ?case
  proof (cases "compareResults x y \<le> 0")
    case True
    have "\<forall>z \<in> set (filter P (y # ys)). compareResults x z \<le> 0"
      using True Cons.prems by (auto intro: compareResults_trans)
    then have "insertSorted compareResults x (filter P (y # ys)) = x # filter P (y # ys)"
      by (rule insertSorted_least)
    with True show ?thesis by simp
  next
    case False
    with Cons show ?thesis by simp
  qed
qed

lemma filter_sortWith:
  "filter P (sortWith compareResults xs) = sortWith compareResults (filter P xs)"
  by (induction xs) (simp_all add: sortWith_Cons filter_insertSorted sorted_sortWith)

section \<open>Candidate selection\<close>

lemma computeResults_eq:
  "computeResults roundPow sd ti groups isTitleOnly baseIndexesSet categoryFilter =
     sortWith compareResults
       (rankLoop roundPow sd groups isTitleOnly
          (searchSpaceOf sd ti groups baseIndexesSet categoryFilter))"
proof (cases "collectCandidateIndexes ti groups baseIndexesSet = Some []")
  case True
  then show ?thesis by (simp add: computeResults_def searchSpaceOf_def)
next
  case False
  show ?thesis
  proof (cases "categoryFilter = []")
    case True
    with False show ?thesis by (simp add: computeResults_def searchSpaceOf_def Let_def)
  next
    case nonempty: False
    let ?space = "case collectCandidateIndexes ti groups baseIndexesSet of
          Some c \<Rightarrow> c
        | None \<Rightarrow> (case baseIndexesSet of Some b \<Rightarrow> b | None \<Rightarrow> [0..<length sd])"
    show ?thesis
    proof (cases "filter (\<lambda>idx. idx < length sd \<and> category (sd ! idx) = categoryFilter) ?space = []")
      case True
      with False nonempty show ?thesis
        by (simp add: computeResults_def searchSpaceOf_def Let_def)
    next
      case f: False
      with False nonempty show ?thesis
        by (simp add: computeResults_def searchSpaceOf_def Let_def)
    qed
  qed
qed

lemma collectLoop_step:
  "collectLoop ti base (g # gs) cs used =
     (case usableBucket ti g of
        None \<Rightarrow> collectLoop ti base gs cs used
      | Some bucket \<Rightarrow>
          (let c' = (case cs of
                       None \<Rightarrow> (case base of Some b \<Rightarrow> filter (\<lambda>idx. idx \<in> set b) bucket
                                 | None \<Rightarrow> bucket)
                     | Some d \<Rightarrow> filter (\<lambda>idx. idx \<in> set d)
                         (case base of Some b \<Rightarrow> filter (\<lambda>idx. idx \<in> set b) bucket
                          | None \<Rightarrow> bucket))
           in if c' = [] then (Some c', True) else collectLoop ti base gs (Some c') True))"
proof -
  let ?ascii = "filter (\<lambda>keyword. length keyword \<ge> MIN_TOKEN_LENGTH \<and> asciiTokenTest keyword) g"
  show ?thesis
  proof (cases "length ?ascii = 1")
    case False
    then have "usableBucket ti g = None"
      by (cases ?ascii rule: list.exhaust; cases "tl ?ascii")
         (auto simp: usableBucket_def split: list.splits)
    with False show ?thesis by (simp add: Let_def)
  next
    case True
    then obtain kw where kw: "?ascii = [kw]"
      by (cases ?ascii) (auto split: if_splits)
    then have "g \<noteq> []" by auto
    with kw show ?thesis
      by (cases "map_of ti kw") (simp_all add: usableBucket_def Let_def)
  qed
qed

text \<open>
  A group that is eligible for pruning but whose token has no bucket, or an empty one,
  leaves the loop as it found it.
\<close>

lemma collectLoop_skip:
  assumes "filter (\<lambda>keyword. length keyword \<ge> MIN_TOKEN_LENGTH \<and> asciiTokenTest keyword) grp = [kw]"
    and "map_of ti kw = None \<or> map_of ti kw = Some []"
  shows "collectLoop ti base (gs1 @ grp # gs2) cs used = collectLoop ti base (gs1 @ gs2) cs used"
proof -
  from assms have none: "usableBucket ti grp = None"
    by (auto simp: usableBucket_def)
  show ?thesis
  proof (induction gs1 arbitrary: cs used)
    case Nil
    show ?case by (simp only: append_Nil collectLoop_step none option.case)
  next
    case (Cons g gs1)
    show ?case
      by (simp only: append_Cons collectLoop_step [of ti base g] Cons.IH)
  qed
qed

text \<open>The candidate set only shrinks along the loop, and stays a set.\<close>

lemma collectLoop_Some:
  "collectLoop ti base gs (Some c) used = (r, used') \<Longrightarrow>
   \<exists>c'. r = Some c' \<and> set c' \<subseteq> set c \<and> (used \<longrightarrow> used')"
proof (induction gs arbitrary: c used)
  case Nil
  then show ?case by auto
next
  case (Cons g gs)
  show ?case
  proof (cases "usableBucket ti g")
    case None
    with Cons.prems have "collectLoop ti base gs (Some c) used = (r, used')"
      by (simp only: collectLoop_step option.case)
    from Cons.IH [OF this] show ?thesis .
  next
    case (Some bucket)
    let ?c' = "filter (\<lambda>idx. idx \<in> set c)
                 (case base of Some b \<Rightarrow> filter (\<lambda>idx. idx \<in> set b) bucket | None \<Rightarrow> bucket)"
    have sub: "set ?c' \<subseteq> set c" by auto
    have step: "collectLoop ti base (g # gs) (Some c) used =
        (if ?c' = [] then (Some ?c', True) else collectLoop ti base gs (Some ?c') True)"
      by (simp only: collectLoop_step Some option.case Let_def)
    show ?thesis
    proof (cases "?c' = []")
      case True
      with step Cons.prems show ?thesis by auto
    next
      case False
      with step Cons.prems have "collectLoop ti base gs (Some ?c') True = (r, used')"
        by simp
      from Cons.IH [OF this] sub show ?thesis by auto
    qed
  qed
qed

text \<open>
  With a base set every bucket is cut down to the base set before it is intersected:
  the candidates are those of the unrestricted run that lie in the base set.
\<close>

lemma filter_mem_filter:
  "filter (\<lambda>i. i \<in> set (filter (\<lambda>i. i \<in> set B) c)) (filter (\<lambda>i. i \<in> set B) bucket) =
   filter (\<lambda>i. i \<in> set B) (filter (\<lambda>i. i \<in> set c) bucket)"
  by (induction bucket) auto

lemma collectLoop_base:
  assumes "collectLoop ti None gs cs used = (csN, usedN)"
  shows "collectLoop ti (Some B) gs (map_option (filter (\<lambda>i. i \<in> set B)) cs) used =
           (map_option (filter (\<lambda>i. i \<in> set B)) csN, usedN)"
  using assms
proof (induction gs arbitrary: cs used)
  case Nil
  then show ?case by simp
next
  case (Cons g gs)
  let ?f = "filter (\<lambda>i. i \<in> set B)"
  show ?case
  proof (cases "usableBucket ti g")
    case None
    with Cons.prems have "collectLoop ti None gs cs used = (csN, usedN)"
      by (simp only: collectLoop_step option.case)
    from Cons.IH [OF this] None show ?thesis
      by (simp only: collectLoop_step option.case)
  next
    case (Some bucket)
    let ?cN = "case cs of None \<Rightarrow> bucket | Some d \<Rightarrow> filter (\<lambda>idx. idx \<in> set d) bucket"
    let ?cB = "case map_option ?f cs of None \<Rightarrow> ?f bucket
               | Some d \<Rightarrow> filter (\<lambda>idx. idx \<in> set d) (?f bucket)"
    have rel: "?cB = ?f ?cN"
      by (cases cs) (simp_all only: option.case option.map filter_mem_filter)
    have stepN: "collectLoop ti None (g # gs) cs used =
        (if ?cN = [] then (Some ?cN, True) else collectLoop ti None gs (Some ?cN) True)"
      by (simp only: collectLoop_step Some option.case Let_def)
    have stepB: "collectLoop ti (Some B) (g # gs) (map_option ?f cs) used =
        (if ?cB = [] then (Some ?cB, True) else collectLoop ti (Some B) gs (Some ?cB) True)"
      by (simp only: collectLoop_step Some option.case Let_def)
    show ?thesis
    proof (cases "?cN = []")
      case True
      with rel stepN stepB Cons.prems show ?thesis by auto
    next
      case False
      with stepN Cons.prems have run: "collectLoop ti None gs (Some ?cN) True = (csN, usedN)"
        by simp
      show ?thesis
      proof (cases "?cB = []")
        case False
        from Cons.IH [OF run] have "collectLoop ti (Some B) gs (Some (?f ?cN)) True =
            (map_option ?f csN, usedN)" by simp
        with False rel stepB show ?thesis by simp
      next
        case True
        from collectLoop_Some [OF run] obtain c' where c': "csN = Some c'" "set c' \<subseteq> set ?cN"
          and u: "usedN" by auto
        from True rel have "?f ?cN = []" by simp
        then have "\<forall>i \<in> set ?cN. i \<notin> set B" by (simp add: filter_empty_conv)
        with c'(2) have "?f c' = []" by (auto simp: filter_empty_conv)
        with True stepB c'(1) u show ?thesis by simp
      qed
    qed
  qed
qed

lemma collectCandidateIndexes_base:
  "collectCandidateIndexes ti gs (Some B) =
     (case collectCandidateIndexes ti gs None of
        None \<Rightarrow> Some B
      | Some c \<Rightarrow> Some (filter (\<lambda>i. i \<in> set B) c))"
proof -
  obtain csN usedN where n: "collectLoop ti None gs None False = (csN, usedN)"
    by (cases "collectLoop ti None gs None False")
  from collectLoop_base [OF n, of B]
  have b: "collectLoop ti (Some B) gs None False =
      (map_option (filter (\<lambda>i. i \<in> set B)) csN, usedN)" by simp
  show ?thesis
    by (cases csN) (simp_all add: collectCandidateIndexes_def n b)
qed

section \<open>The base-index restriction\<close>

lemma set_foldl_set_add:
  "set (foldl (\<lambda>s x. set_add x s) acc xs) = set acc \<union> set xs"
  by (induction xs arbitrary: acc) (auto simp: set_add_def)

lemma distinct_foldl_set_add:
  "distinct acc \<Longrightarrow> distinct (foldl (\<lambda>s x. set_add x s) acc xs)"
  by (induction xs arbitrary: acc) (auto simp: set_add_def)

lemma set_new_Set [simp]: "set (new_Set xs) = set xs"
  by (simp add: new_Set_def set_foldl_set_add)

lemma distinct_new_Set [simp]: "distinct (new_Set xs)"
  by (simp add: new_Set_def distinct_foldl_set_add)

lemma set_parseBaseIndexes:
  "set (parseBaseIndexes n b) =
     {nat i | i e. e \<in> set (split 44 b) \<and> parseInt e = Some i \<and> 0 \<le> i \<and> i < int n}"
  by (force simp: parseBaseIndexes_def split: option.splits)

lemma parseBaseIndexes_bound: "i \<in> set (parseBaseIndexes n b) \<Longrightarrow> i < n"
  by (auto simp: set_parseBaseIndexes)

lemma parseBaseIndexes_empty_iff:
  "parseBaseIndexes n b = [] \<longleftrightarrow> list_all (\<lambda>e. \<not> validEntry n e) (split 44 b)"
proof -
  have "parseBaseIndexes n b = [] \<longleftrightarrow> set (parseBaseIndexes n b) = {}" by simp
  also have "\<dots> \<longleftrightarrow> (\<forall>e \<in> set (split 44 b). \<not> validEntry n e)"
    unfolding set_parseBaseIndexes validEntry_def by (auto split: option.splits)
  finally show ?thesis by (simp add: list_all_iff)
qed

text \<open>A restriction that holds a valid entry is not empty after trimming.\<close>

lemma set_split: "p \<in> set (split sep s) \<Longrightarrow> set p \<subseteq> set s"
proof (induction s arbitrary: p)
  case Nil
  then show ?case by simp
next
  case (Cons c cs)
  show ?case
  proof (cases "c = sep")
    case True
    with Cons show ?thesis by auto
  next
    case False
    show ?thesis
    proof (cases "split sep cs")
      case Nil
      with False Cons.prems show ?thesis by auto
    next
      case (Cons q qs)
      with False Cons.prems have "p = c # q \<or> p \<in> set qs" by auto
      then show ?thesis
      proof
        assume "p = c # q"
        moreover have "set q \<subseteq> set cs" using Cons.IH [of q] Cons by simp
        ultimately show ?thesis by auto
      next
        assume "p \<in> set qs"
        then have "set p \<subseteq> set cs" using Cons.IH [of p] Cons by simp
        then show ?thesis by auto
      qed
    qed
  qed
qed

lemma parseInt_digit:
  assumes "parseInt e = Some i"
  shows "\<exists>c \<in> set e. isDigit c"
proof -
  let ?t = "dropWhile isWhiteSpace e"
  let ?u = "case ?t of [] \<Rightarrow> [] | c # r \<Rightarrow> if c = 45 \<or> c = 43 then r else ?t"
  from assms have ne: "takeWhile isDigit ?u \<noteq> []"
    by (auto simp: parseInt_def Let_def split: if_splits)
  then obtain d where d: "d \<in> set (takeWhile isDigit ?u)" by (cases "takeWhile isDigit ?u") auto
  from set_takeWhileD [OF d] have dig: "isDigit d" and du: "d \<in> set ?u" by blast+
  have "set (case t of [] \<Rightarrow> [] | c # r \<Rightarrow> if c = 45 \<or> c = 43 then r else t) \<subseteq> set t"
    for t :: jsstring by (cases t) auto
  then have "set ?u \<subseteq> set ?t" .
  with du have "d \<in> set ?t" by blast
  then have "d \<in> set e" by (rule set_dropWhileD)
  with dig show ?thesis by blast
qed

lemma valid_entry_not_blank:
  assumes "e \<in> set (split 44 b)" and "validEntry n e"
  shows "trim b \<noteq> []"
proof
  assume "trim b = []"
  then have all: "\<forall>c \<in> set (dropWhile isWhiteSpace b). isWhiteSpace c"
    by (simp add: trim_def dropWhile_eq_Nil_conv)
  have "dropWhile isWhiteSpace b = []"
  proof (rule ccontr)
    assume ne: "dropWhile isWhiteSpace b \<noteq> []"
    then have "\<not> isWhiteSpace (hd (dropWhile isWhiteSpace b))" by (rule hd_dropWhile)
    moreover from ne have "hd (dropWhile isWhiteSpace b) \<in> set (dropWhile isWhiteSpace b)"
      by simp
    ultimately show False using all by blast
  qed
  then have ws: "\<forall>c \<in> set b. isWhiteSpace c" by (simp only: dropWhile_eq_Nil_conv)
  from assms(2) obtain i where "parseInt e = Some i"
    by (auto simp: validEntry_def split: option.splits)
  from parseInt_digit [OF this] obtain c where "c \<in> set e" "isDigit c" by blast
  with set_split [OF assms(1)] ws have "isWhiteSpace c" "isDigit c" by auto
  then show False by (auto simp: isWhiteSpace_def isDigit_def)
qed

text \<open>
  The results under a base set are the results without it whose document lies in the
  base set.
\<close>

lemma rankLoop_filter:
  "rankLoop roundPow sd groups isTitleOnly (filter P space) =
     filter (\<lambda>r. P (index r)) (rankLoop roundPow sd groups isTitleOnly space)"
  by (simp add: rankLoop_eq filter_map comp_def conj_commute)

lemma sorted_before_rankLoop:
  assumes "distinct space"
  shows "sorted_wrt before (sortWith compareResults (rankLoop roundPow sd groups isTitleOnly space))"
proof (rule sorted_distinct_before [OF sorted_sortWith])
  have "distinct (map index (rankLoop roundPow sd groups isTitleOnly space))"
    using assms by (simp add: map_index_rankLoop)
  then show "distinct (map index (sortWith compareResults
      (rankLoop roundPow sd groups isTitleOnly space)))"
    by (simp add: distinct_map_sortWith)
qed

lemma computeResults_base:
  assumes "distinct B" and "\<forall>i \<in> set B. i < length sd"
  shows "computeResults roundPow sd ti groups isTitleOnly (Some B) categoryFilter =
     filter (\<lambda>r. index r \<in> set B)
       (computeResults roundPow sd ti groups isTitleOnly None categoryFilter)"
proof -
  let ?cat = "\<lambda>idx. categoryFilter = [] \<or> (idx < length sd \<and> category (sd ! idx) = categoryFilter)"
  let ?inB = "\<lambda>i. i \<in> set B"
  let ?rl = "rankLoop roundPow sd groups isTitleOnly"
  have rhs: "filter (\<lambda>r. index r \<in> set B)
       (computeResults roundPow sd ti groups isTitleOnly None categoryFilter) =
     sortWith compareResults (?rl (filter ?inB (searchSpaceOf sd ti groups None categoryFilter)))"
    by (simp add: computeResults_eq filter_sortWith rankLoop_filter)
  show ?thesis
  proof (cases "collectCandidateIndexes ti groups None")
    case (Some c)
    have "searchSpaceOf sd ti groups (Some B) categoryFilter =
          filter ?inB (searchSpaceOf sd ti groups None categoryFilter)"
      by (simp add: searchSpaceOf_def collectCandidateIndexes_base Some conj_commute)
    then have "computeResults roundPow sd ti groups isTitleOnly (Some B) categoryFilter =
        sortWith compareResults
          (?rl (filter ?inB (searchSpaceOf sd ti groups None categoryFilter)))"
      by (simp only: computeResults_eq)
    with rhs show ?thesis by simp
  next
    case None
    let ?sB = "filter ?cat B"
    let ?sN = "filter ?inB (filter ?cat [0..<length sd])"
    have sB: "searchSpaceOf sd ti groups (Some B) categoryFilter = ?sB"
      by (simp add: searchSpaceOf_def collectCandidateIndexes_base None)
    have sN: "filter ?inB (searchSpaceOf sd ti groups None categoryFilter) = ?sN"
      by (simp add: searchSpaceOf_def None)
    have seteq: "set ?sB = set ?sN" using assms(2) by auto
    have "sortWith compareResults (?rl ?sB) = sortWith compareResults (?rl ?sN)"
    proof (rule before_unique)
      show "sorted_wrt before (sortWith compareResults (?rl ?sB))"
        using assms(1) by (intro sorted_before_rankLoop) simp
      show "sorted_wrt before (sortWith compareResults (?rl ?sN))"
        by (intro sorted_before_rankLoop) simp
      let ?m = "\<lambda>i. i < length sd \<and> matchesQuery isTitleOnly (sd ! i) groups"
      from seteq have "set (filter ?m ?sB) = set (filter ?m ?sN)"
        by (simp only: set_filter)
      then have "set (?rl ?sB) = set (?rl ?sN)"
        by (simp only: rankLoop_eq set_map)
      then show "set (sortWith compareResults (?rl ?sB)) =
          set (sortWith compareResults (?rl ?sN))"
        by (simp only: set_sortWith)
    qed
    then have "computeResults roundPow sd ti groups isTitleOnly (Some B) categoryFilter =
        sortWith compareResults
          (?rl (filter ?inB (searchSpaceOf sd ti groups None categoryFilter)))"
      by (simp only: computeResults_eq sB sN)
    with rhs show ?thesis by simp
  qed
qed

section \<open>The Result Cache\<close>

lemma update_absent:
  "k \<notin> fst ` set al \<Longrightarrow> AList.update k v al = al @ [(k, v)]"
  by (induction al) auto

lemma length_update:
  "length (AList.update k v al) = (if k \<in> fst ` set al then length al else Suc (length al))"
  by (induction al) auto

lemma length_delete_present:
  "k \<in> fst ` set al \<Longrightarrow> length (AList.delete k al) < length al"
proof (induction al)
  case Nil
  then show ?case by simp
next
  case (Cons p al)
  show ?case
  proof (cases "fst p = k")
    case True
    have "length (AList.delete k al) \<le> length al" by (rule AList.length_delete_le)
    with True show ?thesis by (cases p) auto
  next
    case False
    with Cons show ?thesis by (cases p) auto
  qed
qed

lemma keys_update: "fst ` set (AList.update k v al) = insert k (fst ` set al)"
  using AList.dom_update [of k v al] by simp

lemma keys_delete: "fst ` set (AList.delete k al) \<subseteq> fst ` set al"
  by (rule AList.dom_delete_subset)

lemma delete_head:
  assumes "distinct (map fst ((k, v) # al))"
  shows "AList.delete k ((k, v) # al) = al"
proof -
  from assms have "k \<notin> fst ` set al" by simp
  then show ?thesis by (simp add: AList.delete_id)
qed

lemma setCachedResults_eq:
  assumes "cacheInv c" and "key \<noteq> []"
  shows "setCachedResults key rs now c =
     (if length (AList.update key \<lparr>entryResults = rs, timestamp = now\<rparr> c) > CACHE_MAX_ENTRIES
      then tl (AList.update key \<lparr>entryResults = rs, timestamp = now\<rparr> c)
      else AList.update key \<lparr>entryResults = rs, timestamp = now\<rparr> c)"
proof -
  let ?u = "AList.update key \<lparr>entryResults = rs, timestamp = now\<rparr> c"
  show ?thesis
  proof (cases "length ?u > CACHE_MAX_ENTRIES")
    case False
    then show ?thesis by (simp add: setCachedResults_def Let_def)
  next
    case True
    obtain k0 e0 rest where u: "?u = (k0, e0) # rest"
      by (cases ?u) (auto simp: AList.update_nonempty)
    have "distinct (map fst ?u)" using assms(1) by (simp add: cacheInv_def AList.distinct_update)
    with u have "AList.delete k0 ?u = rest" by (simp add: delete_head)
    moreover have "k0 \<in> fst ` set ?u" using u by simp
    then have "k0 \<noteq> []" using assms by (auto simp: keys_update cacheInv_def)
    ultimately show ?thesis using True u by (simp add: setCachedResults_def Let_def)
  qed
qed

lemma setCachedResults_inv:
  assumes "cacheInv c" and "key \<noteq> []"
  shows "cacheInv (setCachedResults key rs now c)"
proof -
  let ?u = "AList.update key \<lparr>entryResults = rs, timestamp = now\<rparr> c"
  have d: "distinct (map fst ?u)" using assms(1) by (simp add: cacheInv_def AList.distinct_update)
  have k: "[] \<notin> fst ` set ?u" using assms by (auto simp: keys_update cacheInv_def)
  have l: "length ?u \<le> Suc CACHE_MAX_ENTRIES"
    using assms(1) by (simp add: length_update cacheInv_def)
  show ?thesis
  proof (cases "length ?u > CACHE_MAX_ENTRIES")
    case False
    with d k show ?thesis by (simp add: setCachedResults_eq [OF assms] cacheInv_def)
  next
    case True
    have "distinct (map fst (tl ?u))" using d by (simp add: distinct_tl map_tl)
    moreover have "[] \<notin> fst ` set (tl ?u)" using k by (auto dest: list.set_sel(2) [rotated])
    moreover have "length (tl ?u) \<le> CACHE_MAX_ENTRIES" using l by simp
    ultimately show ?thesis using True
      by (simp add: setCachedResults_eq [OF assms] cacheInv_def)
  qed
qed

lemma setCachedResults_lookup:
  assumes "cacheInv c" and "key \<noteq> []"
  shows "map_of (setCachedResults key rs now c) key = Some \<lparr>entryResults = rs, timestamp = now\<rparr>"
proof -
  let ?e = "\<lparr>entryResults = rs, timestamp = now\<rparr>"
  let ?u = "AList.update key ?e c"
  have m: "map_of ?u key = Some ?e" by (simp add: AList.update_conv')
  show ?thesis
  proof (cases "length ?u > CACHE_MAX_ENTRIES")
    case False
    with m show ?thesis by (simp add: setCachedResults_eq [OF assms])
  next
    case True
    with assms(1) have new: "key \<notin> fst ` set c" and full: "length c = CACHE_MAX_ENTRIES"
      by (auto simp: length_update cacheInv_def split: if_splits)
    then have u: "?u = c @ [(key, ?e)]" by (simp add: update_absent)
    from full obtain p rest where c: "c = p # rest"
      by (cases c) (auto simp: CACHE_MAX_ENTRIES_def)
    with new have "key \<notin> fst ` set rest" by auto
    then have "map_of rest key = None" by (simp add: map_of_eq_None_iff)
    moreover from u c have "tl ?u = rest @ [(key, ?e)]" by simp
    ultimately have "map_of (tl ?u) key = Some ?e"
      by (simp add: map_add_def)
    with True show ?thesis by (simp add: setCachedResults_eq [OF assms])
  qed
qed

lemma getCachedResults_hit:
  assumes "map_of c key = Some e" and "\<not> now - timestamp e > CACHE_TTL"
  shows "getCachedResults key now c = (Some (entryResults e), AList.delete key c @ [(key, e)])"
proof -
  have "key \<notin> fst ` set (AList.delete key c)" by (rule AList.delete_notin_dom)
  then have "AList.update key e (AList.delete key c) = AList.delete key c @ [(key, e)]"
    by (rule update_absent)
  with assms show ?thesis by (simp add: getCachedResults_def)
qed

lemma getCachedResults_inv:
  assumes "cacheInv c"
  shows "cacheInv (snd (getCachedResults key now c))"
proof (cases "map_of c key")
  case None
  with assms show ?thesis by (simp add: getCachedResults_def)
next
  case (Some e)
  then have mem: "key \<in> fst ` set c" by (auto dest: map_of_SomeD intro: rev_image_eqI)
  have del: "cacheInv (AList.delete key c)"
    using assms keys_delete [of key c] AList.length_delete_le [of key c]
    by (auto simp: cacheInv_def AList.distinct_delete)
  show ?thesis
  proof (cases "now - timestamp e > CACHE_TTL")
    case True
    with Some del show ?thesis by (simp add: getCachedResults_def)
  next
    case False
    let ?r = "AList.update key e (AList.delete key c)"
    have "length ?r \<le> length c"
      using length_delete_present [OF mem] by (simp add: length_update)
    moreover have "distinct (map fst ?r)"
      using assms by (simp add: cacheInv_def AList.distinct_update AList.distinct_delete)
    moreover have "[] \<notin> fst ` set ?r"
      using assms mem keys_delete [of key c] by (auto simp: keys_update cacheInv_def)
    ultimately have "cacheInv ?r" using assms by (simp add: cacheInv_def)
    with Some False show ?thesis by (simp add: getCachedResults_def)
  qed
qed

lemma getCachedResults_entry:
  "getCachedResults key now c = (Some rs, qc) \<Longrightarrow>
   \<exists>e. (key, e) \<in> set c \<and> rs = entryResults e"
  by (auto simp: getCachedResults_def split: option.splits if_splits dest: map_of_SomeD)

lemma set_getCachedResults: "set (snd (getCachedResults key now c)) \<subseteq> set c"
proof (cases "map_of c key")
  case None
  then show ?thesis by (simp add: getCachedResults_def)
next
  case (Some e)
  have d: "set (AList.delete key c) \<subseteq> set c" by (auto simp: AList.delete_eq)
  have "set (AList.update key e al) \<subseteq> insert (key, e) (set al)" for al
    by (induction al) auto
  with d have "set (AList.update key e (AList.delete key c)) \<subseteq> insert (key, e) (set c)"
    by blast
  moreover from Some have "(key, e) \<in> set c" by (rule map_of_SomeD)
  ultimately show ?thesis using Some d by (auto simp: getCachedResults_def)
qed

lemma set_setCachedResults:
  "set (setCachedResults key rs now c) \<subseteq>
     insert (key, \<lparr>entryResults = rs, timestamp = now\<rparr>) (set c)"
proof -
  let ?u = "AList.update key \<lparr>entryResults = rs, timestamp = now\<rparr> c"
  have u: "set (AList.update k v al) \<subseteq> insert (k, v) (set al)"
    for k :: jsstring and v :: entry and al
    by (induction al) auto
  have d: "set (AList.delete k al) \<subseteq> set al" for k and al :: cache
    by (auto simp: AList.delete_eq)
  have "setCachedResults key rs now c = ?u \<or>
        (\<exists>k. setCachedResults key rs now c = AList.delete k ?u)"
  proof (cases ?u)
    case Nil
    then show ?thesis by (simp add: setCachedResults_def Let_def)
  next
    case (Cons p rest)
    show ?thesis
    proof (cases "length ?u > CACHE_MAX_ENTRIES \<and> fst p \<noteq> []")
      case True
      with Cons have "setCachedResults key rs now c = AList.delete (fst p) ?u"
        by (cases p) (simp add: setCachedResults_def Let_def del: AList.delete_simps)
      then show ?thesis by blast
    next
      case False
      with Cons have "setCachedResults key rs now c = ?u"
        by (cases p) (auto simp: setCachedResults_def Let_def simp del: AList.delete_simps)
      then show ?thesis by blast
    qed
  qed
  then have "set (setCachedResults key rs now c) \<subseteq> set ?u"
  proof
    assume "setCachedResults key rs now c = ?u"
    then show ?thesis by simp
  next
    assume "\<exists>k. setCachedResults key rs now c = AList.delete k ?u"
    then obtain k where "setCachedResults key rs now c = AList.delete k ?u" ..
    with d [of k ?u] show ?thesis by simp
  qed
  with u [of key "\<lparr>entryResults = rs, timestamp = now\<rparr>" c] show ?thesis by blast
qed

lemma buildCacheKey_nonempty: "buildCacheKey parts t b cat \<noteq> []"
  by (simp add: buildCacheKey_def Let_def)

lemma cacheKey_of_nonempty: "cacheKey_of lc n req kw \<noteq> []"
  by (simp add: cacheKey_of_def buildCacheKey_nonempty)

section \<open>The states of the server\<close>

lemma search_outcome:
  "search lc rp req now st =
     (emptyResponse (pageNum_req req) (size_req req), st) \<or>
   (\<exists>kw rs. fst (getCachedResults (cacheKey_of lc (length (searchData st)) req kw) now
                   (queryCache st)) = Some rs \<and>
      search lc rp req now st =
        (paginateResults rs (pageNum_req req) (size_req req),
         st\<lparr>queryCache := snd (getCachedResults (cacheKey_of lc (length (searchData st)) req kw)
                                 now (queryCache st))\<rparr>)) \<or>
   (\<exists>kw. search lc rp req now st =
        (paginateResults
           (computeResults rp (searchData st) (tokenIndex st) (keywordGroupsLower_of lc kw)
              (isTitleOnly_of req) (baseIndexesSet_of (length (searchData st)) req)
              (categoryFilter_of lc req))
           (pageNum_req req) (size_req req),
         st\<lparr>queryCache :=
              setCachedResults (cacheKey_of lc (length (searchData st)) req kw)
                (computeResults rp (searchData st) (tokenIndex st) (keywordGroupsLower_of lc kw)
                   (isTitleOnly_of req) (baseIndexesSet_of (length (searchData st)) req)
                   (categoryFilter_of lc req))
                now
                (snd (getCachedResults (cacheKey_of lc (length (searchData st)) req kw) now
                        (queryCache st)))\<rparr>))"
proof (cases "q_keyword req")
  case None
  then show ?thesis by (simp add: search_def)
next
  case (Some k)
  let ?kw = "paramString k"
  let ?key = "cacheKey_of lc (length (searchData st)) req ?kw"
  obtain r qc where g: "getCachedResults ?key now (queryCache st) = (r, qc)"
    by (cases "getCachedResults ?key now (queryCache st)")
  show ?thesis
  proof (cases "k = Str [] \<or> baseIndexesSet_of (length (searchData st)) req = Some [] \<or>
      parseSearchKeywords ?kw = []")
    case True
    with Some show ?thesis by (auto simp: search_def Let_def)
  next
    case False
    show ?thesis
    proof (cases r)
      case None
      with False Some g have "search lc rp req now st =
        (paginateResults
           (computeResults rp (searchData st) (tokenIndex st) (keywordGroupsLower_of lc ?kw)
              (isTitleOnly_of req) (baseIndexesSet_of (length (searchData st)) req)
              (categoryFilter_of lc req))
           (pageNum_req req) (size_req req),
         st\<lparr>queryCache :=
              setCachedResults ?key
                (computeResults rp (searchData st) (tokenIndex st) (keywordGroupsLower_of lc ?kw)
                   (isTitleOnly_of req) (baseIndexesSet_of (length (searchData st)) req)
                   (categoryFilter_of lc req))
                now (snd (getCachedResults ?key now (queryCache st)))\<rparr>)"
        by (simp add: search_def Let_def)
      then show ?thesis by blast
    next
      case (Some rs)
      with False \<open>q_keyword req = Some k\<close> g have
        "fst (getCachedResults ?key now (queryCache st)) = Some rs \<and>
         search lc rp req now st =
          (paginateResults rs (pageNum_req req) (size_req req),
           st\<lparr>queryCache := snd (getCachedResults ?key now (queryCache st))\<rparr>)"
        by (simp add: search_def Let_def)
      then show ?thesis by blast
    qed
  qed
qed

lemma search_keeps_store:
  "searchData (snd (search lc rp req now st)) = searchData st \<and>
   tokenIndex (snd (search lc rp req now st)) = tokenIndex st"
  using search_outcome [of lc rp req now st] by auto

lemma search_cacheInv:
  assumes "cacheInv (queryCache st)"
  shows "cacheInv (queryCache (snd (search lc rp req now st)))"
  using search_outcome [of lc rp req now st] assms
  by (auto simp: getCachedResults_inv setCachedResults_inv cacheKey_of_nonempty)

lemma load_queryCache: "queryCache (foldl pushRecord st records) = queryCache st"
  by (induction records arbitrary: st) (simp_all add: pushRecord_def Let_def)

lemma reachable_cacheInv: "reachable lc rp st \<Longrightarrow> cacheInv (queryCache st)"
proof (induction rule: reachable.induct)
  case (loaded records)
  show ?case
    by (simp add: loadSearchData_def load_queryCache resetInMemoryStructures_def cacheInv_def)
next
  case (served st req now)
  from served.IH show ?case by (rule search_cacheInv)
qed

text \<open>Every bucket of a loaded index holds a document once.\<close>

lemma list_all_update:
  "P (k, v) \<Longrightarrow> list_all P al \<Longrightarrow> list_all P (AList.update k v al)"
  by (induction al) auto

lemma distinct_set_add: "distinct s \<Longrightarrow> distinct (set_add x s)"
  by (simp add: set_add_def)

lemma indexDocumentTokens_distinct:
  assumes "list_all (\<lambda>kb. distinct (snd kb)) ti"
  shows "list_all (\<lambda>kb. distinct (snd kb)) (indexDocumentTokens d t c ti)"
proof -
  have "list_all (\<lambda>kb. distinct (snd kb))
      (foldl (\<lambda>ti token. AList.update token
                (set_add d (case map_of ti token of None \<Rightarrow> [] | Some bucket \<Rightarrow> bucket)) ti)
         ti tokens)" for tokens
    using assms
  proof (induction tokens arbitrary: ti)
    case Nil
    then show ?case by simp
  next
    case (Cons token tokens)
    have "distinct (case map_of ti token of None \<Rightarrow> [] | Some bucket \<Rightarrow> bucket)"
    proof (cases "map_of ti token")
      case None
      then show ?thesis by simp
    next
      case (Some bucket)
      then have "(token, bucket) \<in> set ti" by (rule map_of_SomeD)
      with Cons.prems have "distinct bucket" by (auto simp: list_all_iff)
      with Some show ?thesis by simp
    qed
    then have "list_all (\<lambda>kb. distinct (snd kb))
        (AList.update token
           (set_add d (case map_of ti token of None \<Rightarrow> [] | Some bucket \<Rightarrow> bucket)) ti)"
      using Cons.prems by (intro list_all_update) (simp_all add: distinct_set_add)
    from Cons.IH [OF this] show ?case by simp
  qed
  then show ?thesis by (simp add: indexDocumentTokens_def)
qed

lemma load_distinct:
  "list_all (\<lambda>kb. distinct (snd kb)) (tokenIndex st) \<Longrightarrow>
   list_all (\<lambda>kb. distinct (snd kb)) (tokenIndex (foldl pushRecord st records))"
proof (induction records arbitrary: st)
  case Nil
  then show ?case by simp
next
  case (Cons r records)
  have "list_all (\<lambda>kb. distinct (snd kb)) (tokenIndex (pushRecord st r))"
    using Cons.prems by (simp add: pushRecord_def Let_def indexDocumentTokens_distinct)
  from Cons.IH [OF this] show ?case by simp
qed

text \<open>The candidate set and the search space hold a document once.\<close>

lemma usableBucket_distinct:
  "list_all (\<lambda>kb. distinct (snd kb)) ti \<Longrightarrow> usableBucket ti g = Some bucket \<Longrightarrow> distinct bucket"
  by (auto simp: usableBucket_def list_all_iff split: list.splits option.splits if_splits
      dest!: map_of_SomeD)

lemma collectLoop_distinct:
  assumes "list_all (\<lambda>kb. distinct (snd kb)) ti"
  shows "(\<forall>c. cs = Some c \<longrightarrow> distinct c) \<Longrightarrow> collectLoop ti base gs cs used = (r, used') \<Longrightarrow>
         (\<forall>c. r = Some c \<longrightarrow> distinct c)"
proof (induction gs arbitrary: cs used)
  case Nil
  then show ?case by simp
next
  case (Cons g gs)
  show ?case
  proof (cases "usableBucket ti g")
    case None
    with Cons.prems(2) have "collectLoop ti base gs cs used = (r, used')"
      by (simp only: collectLoop_step option.case)
    from Cons.IH [OF Cons.prems(1) this] show ?thesis .
  next
    case (Some bucket)
    let ?c' = "case cs of
                 None \<Rightarrow> (case base of Some b \<Rightarrow> filter (\<lambda>idx. idx \<in> set b) bucket
                           | None \<Rightarrow> bucket)
               | Some d \<Rightarrow> filter (\<lambda>idx. idx \<in> set d)
                   (case base of Some b \<Rightarrow> filter (\<lambda>idx. idx \<in> set b) bucket
                    | None \<Rightarrow> bucket)"
    from usableBucket_distinct [OF assms Some] have "distinct bucket" .
    then have d: "distinct ?c'" by (auto split: option.splits)
    have step: "collectLoop ti base (g # gs) cs used =
        (if ?c' = [] then (Some ?c', True) else collectLoop ti base gs (Some ?c') True)"
      by (simp only: collectLoop_step Some option.case Let_def)
    show ?thesis
    proof (cases "?c' = []")
      case True
      with step Cons.prems(2) show ?thesis by auto
    next
      case False
      with step Cons.prems(2) have "collectLoop ti base gs (Some ?c') True = (r, used')"
        by simp
      with Cons.IH [of "Some ?c'" True] d show ?thesis by simp
    qed
  qed
qed

lemma searchSpaceOf_distinct:
  assumes "list_all (\<lambda>kb. distinct (snd kb)) ti" and "\<forall>b. base = Some b \<longrightarrow> distinct b"
  shows "distinct (searchSpaceOf sd ti groups base categoryFilter)"
proof -
  obtain r used where l: "collectLoop ti base groups None False = (r, used)"
    by (cases "collectLoop ti base groups None False")
  from collectLoop_distinct [OF assms(1) _ l] have "\<forall>c. r = Some c \<longrightarrow> distinct c" by simp
  with assms(2) l have "\<forall>c. collectCandidateIndexes ti groups base = Some c \<longrightarrow> distinct c"
    by (auto simp: collectCandidateIndexes_def split: option.splits if_splits)
  with assms(2) show ?thesis
    by (auto simp: searchSpaceOf_def split: option.splits)
qed

lemma baseIndexesSet_of_distinct: "baseIndexesSet_of n req = Some b \<Longrightarrow> distinct b"
  by (auto simp: baseIndexesSet_of_def parseBaseIndexes_def
      split: if_splits option.splits param.splits)

lemma computeResults_sorted:
  assumes "list_all (\<lambda>kb. distinct (snd kb)) ti" and "\<forall>b. base = Some b \<longrightarrow> distinct b"
  shows "sorted_wrt before (computeResults rp sd ti groups isTitleOnly base categoryFilter)"
  unfolding computeResults_eq
  by (intro sorted_before_rankLoop searchSpaceOf_distinct assms)

lemma paginateResults_sorted:
  "sorted_wrt before rs \<Longrightarrow> sorted_wrt before (results (paginateResults rs p z))"
  by (cases p) (simp_all add: paginateResults_def Let_def slice_def)

lemma search_stateInv:
  assumes "stateInv st"
  shows "sorted_wrt before (results (fst (search lc rp req now st))) \<and>
         stateInv (snd (search lc rp req now st))"
proof -
  let ?n = "length (searchData st)"
  from assms have ti: "list_all (\<lambda>kb. distinct (snd kb)) (tokenIndex st)"
    and qc: "\<forall>ke \<in> set (queryCache st). sorted_wrt before (entryResults (snd ke))"
    by (simp_all add: stateInv_def list_all_iff)
  have comp: "sorted_wrt before
      (computeResults rp (searchData st) (tokenIndex st) (keywordGroupsLower_of lc kw)
         (isTitleOnly_of req) (baseIndexesSet_of ?n req) (categoryFilter_of lc req))" for kw
    by (intro computeResults_sorted ti) (auto dest: baseIndexesSet_of_distinct)
  have get: "\<forall>ke \<in> set (snd (getCachedResults k now (queryCache st))).
      sorted_wrt before (entryResults (snd ke))" for k
    using qc set_getCachedResults [of k now "queryCache st"] by blast
  have put: "\<forall>ke \<in> set (setCachedResults k rs now c). sorted_wrt before (entryResults (snd ke))"
    if "sorted_wrt before rs" "\<forall>ke \<in> set c. sorted_wrt before (entryResults (snd ke))"
    for k rs c
    using that set_setCachedResults [of k rs now c] by fastforce
  have hit: "sorted_wrt before rs"
    if "fst (getCachedResults k now (queryCache st)) = Some rs" for k rs
  proof -
    from that have "getCachedResults k now (queryCache st) =
        (Some rs, snd (getCachedResults k now (queryCache st)))"
      by (metis prod.collapse)
    from getCachedResults_entry [OF this] qc show ?thesis by auto
  qed
  from search_outcome [of lc rp req now st] show ?thesis
  proof (elim disjE exE conjE)
    assume "search lc rp req now st =
      (emptyResponse (pageNum_req req) (size_req req), st)"
    with assms show ?thesis by (simp add: emptyResponse_def)
  next
    fix kw rs
    assume f: "fst (getCachedResults (cacheKey_of lc ?n req kw) now (queryCache st)) = Some rs"
      and s: "search lc rp req now st =
        (paginateResults rs (pageNum_req req) (size_req req),
         st\<lparr>queryCache := snd (getCachedResults (cacheKey_of lc ?n req kw) now
                                 (queryCache st))\<rparr>)"
    from f have "sorted_wrt before rs" by (rule hit)
    with s ti get [of "cacheKey_of lc ?n req kw"] show ?thesis
      by (simp add: paginateResults_sorted stateInv_def list_all_iff)
  next
    fix kw
    let ?rs = "computeResults rp (searchData st) (tokenIndex st) (keywordGroupsLower_of lc kw)
         (isTitleOnly_of req) (baseIndexesSet_of ?n req) (categoryFilter_of lc req)"
    let ?key = "cacheKey_of lc ?n req kw"
    assume s: "search lc rp req now st =
        (paginateResults ?rs (pageNum_req req) (size_req req),
         st\<lparr>queryCache := setCachedResults ?key ?rs now
              (snd (getCachedResults ?key now (queryCache st)))\<rparr>)"
    from put [OF comp [of kw] get [of ?key], of ?key] s ti comp [of kw] show ?thesis
      by (simp add: paginateResults_sorted stateInv_def list_all_iff)
  qed
qed

lemma reachable_stateInv: "reachable lc rp st \<Longrightarrow> stateInv st"
proof (induction rule: reachable.induct)
  case (loaded records)
  have "list_all (\<lambda>kb. distinct (snd kb))
      (tokenIndex (foldl pushRecord resetInMemoryStructures records))"
    by (rule load_distinct) (simp add: resetInMemoryStructures_def)
  then show ?case
    by (simp add: stateInv_def loadSearchData_def load_queryCache resetInMemoryStructures_def)
next
  case (served st req now)
  then show ?case using search_stateInv by blast
qed

section \<open>The handler on a cache miss\<close>

lemma getCachedResults_miss:
  "map_of qc k = None \<Longrightarrow> getCachedResults k now qc = (None, qc)"
  by (simp add: getCachedResults_def)

lemma getCachedResults_None:
  "fst (getCachedResults k now qc) = None \<Longrightarrow>
   getCachedResults k now qc = (None, snd (getCachedResults k now qc))"
  by (metis prod.collapse)

text \<open>
  A request that passes the checks of the handler and finds no live entry under its
  key in the cache (none, or an expired one) is answered with a page of the computed
  result list.
\<close>

lemma search_computed:
  assumes "q_keyword req = Some k" and "parseSearchKeywords (paramString k) \<noteq> []"
    and "baseIndexesSet_of (length (searchData st)) req \<noteq> Some []"
    and "fst (getCachedResults (cacheKey_of lc (length (searchData st)) req (paramString k))
           now (queryCache st)) = None"
  shows "fst (search lc rp req now st) =
     paginateResults
       (computeResults rp (searchData st) (tokenIndex st)
          (keywordGroupsLower_of lc (paramString k)) (isTitleOnly_of req)
          (baseIndexesSet_of (length (searchData st)) req) (categoryFilter_of lc req))
       (pageNum_req req) (size_req req)"
proof -
  from assms(2) have "paramString k \<noteq> []" by (auto simp: parseSearchKeywords_def)
  then have "k \<noteq> Str []" by auto
  moreover from assms(4) obtain qc where
    "getCachedResults (cacheKey_of lc (length (searchData st)) req (paramString k))
       now (queryCache st) = (None, qc)"
    using getCachedResults_None by blast
  ultimately show ?thesis using assms(1-3)
    by (simp add: search_def Let_def)
qed

section \<open>Matching documents and the candidate set (C1, C2)\<close>

text \<open>
  What the handler computes on a cache miss: the documents of the search space that
  match the query in the sense of the specification.
\<close>

lemma computeResults_indexes:
  "set (map index (computeResults roundPow sd ti groups isTitleOnly base categoryFilter)) =
     {i \<in> set (searchSpaceOf sd ti groups base categoryFilter).
        i < length sd \<and> matchesQuery isTitleOnly (sd ! i) groups}"
proof -
  have "set (map index (computeResults roundPow sd ti groups isTitleOnly base categoryFilter)) =
        index ` set (rankLoop roundPow sd groups isTitleOnly
                       (searchSpaceOf sd ti groups base categoryFilter))"
    by (simp only: computeResults_eq set_map set_sortWith)
  also have "\<dots> = set (map index (rankLoop roundPow sd groups isTitleOnly
                       (searchSpaceOf sd ti groups base categoryFilter)))"
    by simp
  finally show ?thesis by (simp only: map_index_rankLoop set_filter)
qed

text \<open>
  C1: the claim is that a document is in the full result list if and only if every
  group has a positive best occurrence count in it. The code breaks it: in the store
  with the titles \<^verbatim>\<open>ab\<close> and \<^verbatim>\<open>cabd\<close> the query \<^verbatim>\<open>ab\<close> has one occurrence in the
  title of document 1, but the token \<^verbatim>\<open>ab\<close> has the bucket \<open>[0]\<close>, the candidate
  set is cut down to it, and the full result list holds document 0 only. In the store
  with the title \<^verbatim>\<open>cabd\<close> alone the token \<^verbatim>\<open>ab\<close> has no bucket, the whole store is
  scanned, and the same query finds that document.
\<close>

theorem search_misses_substring_match:
  "keywordGroupsLower_of asciiLower (js ''ab'') = [[js ''ab'']] \<and>
   countOccurrences (titleLower (searchData storeAbCabd ! 1)) (js ''ab'') = 1 \<and>
   matchesQuery False (searchData storeAbCabd ! 1) [[js ''ab'']] \<and>
   map index (results (fst (search asciiLower roundPow1 (keywordRequest (js ''ab'')) 0
                              storeAbCabd))) = [0] \<and>
   total (fst (search asciiLower roundPow1 (keywordRequest (js ''ab'')) 0 storeAbCabd)) = 1 \<and>
   searchData storeCabd = [searchData storeAbCabd ! 1] \<and>
   map index (results (fst (search asciiLower roundPow1 (keywordRequest (js ''ab'')) 0
                              storeCabd))) = [0]"
  by code_simp

text \<open>
  C2: the claim is that a candidate set that is not \<^verbatim>\<open>null\<close> holds every document
  that matches by occurrence counts. The code breaks it on the same store: the
  candidate set of the query \<^verbatim>\<open>ab\<close> is \<open>[0]\<close>, and document 1, whose title \<^verbatim>\<open>cabd\<close>
  holds \<^verbatim>\<open>ab\<close>, matches and is not in it.
\<close>

theorem candidates_miss_substring_match:
  "tokenIndex storeAbCabd = [(js ''ab'', [0]), (js ''cabd'', [1])] \<and>
   collectCandidateIndexes (tokenIndex storeAbCabd) [[js ''ab'']] None = Some [0] \<and>
   length (searchData storeAbCabd) = 2 \<and>
   matchesQuery False (searchData storeAbCabd ! 1) [[js ''ab'']]"
  by code_simp

section \<open>A token without bucket (C3)\<close>

text \<open>
  C3, as the specification states it, fails on the code: in the store with the single
  title \<^verbatim>\<open>pizza\<close> the query \<^verbatim>\<open>zz\<close> is one group with one alternative of two ASCII
  letters, its token has no bucket, and yet the candidate selection returns \<^verbatim>\<open>null\<close>
  (no constraint), not the empty set, and the search returns document 0.
\<close>

theorem absent_bucket_counterexample:
  "length (js ''zz'') \<ge> MIN_TOKEN_LENGTH \<and> asciiTokenTest (js ''zz'') \<and>
   map_of (tokenIndex storePizza) (js ''zz'') = None \<and>
   collectCandidateIndexes (tokenIndex storePizza) [[js ''zz'']] None = None \<and>
   map index (results (fst (search asciiLower roundPow1 (keywordRequest (js ''zz'')) 0
                              storePizza))) = [0]"
  by code_simp

text \<open>
  C3, amended: a group that is eligible for index-based pruning (exactly one of its
  alternatives has at least 2 characters and is made of ASCII lower-case letters and
  digits only) and whose token has an absent or empty bucket is skipped by the candidate
  selection. The candidate set of the query is the candidate set of the query without
  this group, so the ranking loop, which decides on all groups, runs over the search
  space of the query without it. When it is the only group, the candidate set is
  the base-index set if one is supplied and unconstrained (\<^verbatim>\<open>null\<close>) otherwise, and
  the result list is the sorted output of the ranking loop over the documents of the
  base-index set (the whole store if none is supplied) that pass the category filter.
\<close>

theorem absent_bucket_skipped:
  "filter (\<lambda>keyword. length keyword \<ge> MIN_TOKEN_LENGTH \<and> asciiTokenTest keyword) grp = [kw] \<and>
   (map_of ti kw = None \<or> map_of ti kw = Some []) \<Longrightarrow>
   collectCandidateIndexes ti (gs1 @ grp # gs2) base = collectCandidateIndexes ti (gs1 @ gs2) base \<and>
   computeResults rp sd ti (gs1 @ grp # gs2) isTitleOnly base categoryFilter =
     sortWith compareResults
       (rankLoop rp sd (gs1 @ grp # gs2) isTitleOnly
          (searchSpaceOf sd ti (gs1 @ gs2) base categoryFilter)) \<and>
   collectCandidateIndexes ti [grp] base = base \<and>
   computeResults rp sd ti [grp] isTitleOnly base categoryFilter =
     sortWith compareResults
       (rankLoop rp sd [grp] isTitleOnly
          (filter (\<lambda>idx. categoryFilter = [] \<or>
                          (idx < length sd \<and> category (sd ! idx) = categoryFilter))
             (case base of Some b \<Rightarrow> b | None \<Rightarrow> [0..<length sd])))"
proof -
  assume h: "filter (\<lambda>keyword. length keyword \<ge> MIN_TOKEN_LENGTH \<and> asciiTokenTest keyword) grp
      = [kw] \<and> (map_of ti kw = None \<or> map_of ti kw = Some [])"
  then have skip: "collectLoop ti base (xs @ grp # ys) cs used =
      collectLoop ti base (xs @ ys) cs used" for xs ys cs used
    by (intro collectLoop_skip [of grp kw ti]) simp_all
  have a: "collectCandidateIndexes ti (xs @ grp # ys) base =
      collectCandidateIndexes ti (xs @ ys) base" for xs ys
    by (simp only: collectCandidateIndexes_def skip)
  have sp: "searchSpaceOf sd ti (xs @ grp # ys) base categoryFilter =
      searchSpaceOf sd ti (xs @ ys) base categoryFilter" for xs ys
    by (simp only: searchSpaceOf_def a)
  have c: "computeResults rp sd ti (gs1 @ grp # gs2) isTitleOnly base categoryFilter =
     sortWith compareResults
       (rankLoop rp sd (gs1 @ grp # gs2) isTitleOnly
          (searchSpaceOf sd ti (gs1 @ gs2) base categoryFilter))"
    by (simp only: computeResults_eq sp)
  from skip [of "[]" "[]"] have "collectLoop ti base [grp] None False = (None, False)"
    by simp
  then have b: "collectCandidateIndexes ti [grp] base = base"
    by (simp add: collectCandidateIndexes_def)
  have "searchSpaceOf sd ti [grp] base categoryFilter =
      filter (\<lambda>idx. categoryFilter = [] \<or>
                      (idx < length sd \<and> category (sd ! idx) = categoryFilter))
        (case base of Some b \<Rightarrow> b | None \<Rightarrow> [0..<length sd])"
    unfolding searchSpaceOf_def b by (cases base) simp_all
  then have d: "computeResults rp sd ti [grp] isTitleOnly base categoryFilter =
     sortWith compareResults
       (rankLoop rp sd [grp] isTitleOnly
          (filter (\<lambda>idx. categoryFilter = [] \<or>
                          (idx < length sd \<and> category (sd ! idx) = categoryFilter))
             (case base of Some b \<Rightarrow> b | None \<Rightarrow> [0..<length sd])))"
    by (simp only: computeResults_eq)
  show ?thesis by (intro conjI a c b d)
qed

theorem absent_bucket_skipped_witness:
  "filter (\<lambda>keyword. length keyword \<ge> MIN_TOKEN_LENGTH \<and> asciiTokenTest keyword) [js ''zz'']
     = [js ''zz''] \<and>
   map_of (tokenIndex storeAbCabd) (js ''zz'') = None \<and>
   collectCandidateIndexes (tokenIndex storeAbCabd) [[js ''zz''], [js ''ab'']] (Some [1, 0]) =
     Some [0] \<and>
   collectCandidateIndexes (tokenIndex storeAbCabd) [[js ''zz'']] (Some [1, 0]) = Some [1, 0] \<and>
   map index (computeResults roundPow1 (searchData storeAbCabd) (tokenIndex storeAbCabd)
                [[js ''zz'']] False (Some [1, 0]) []) =
   map index (sortWith compareResults
                (rankLoop roundPow1 (searchData storeAbCabd) [[js ''zz'']] False [1, 0]))"
proof -
  have h: "filter (\<lambda>keyword. length keyword \<ge> MIN_TOKEN_LENGTH \<and> asciiTokenTest keyword)
      [js ''zz''] = [js ''zz''] \<and>
    (map_of (tokenIndex storeAbCabd) (js ''zz'') = None \<or>
     map_of (tokenIndex storeAbCabd) (js ''zz'') = Some [])"
    by code_simp
  have n: "map_of (tokenIndex storeAbCabd) (js ''zz'') = None" by code_simp
  have r: "collectCandidateIndexes (tokenIndex storeAbCabd) [[js ''ab'']] (Some [1, 0]) = Some [0]"
    by code_simp
  note t = absent_bucket_skipped [OF h, of "[]" "[[js ''ab'']]" "Some [1, 0]" roundPow1
      "searchData storeAbCabd" False "[]"]
  from t r have a: "collectCandidateIndexes (tokenIndex storeAbCabd) [[js ''zz''], [js ''ab'']]
      (Some [1, 0]) = Some [0]" by simp
  from t have b: "collectCandidateIndexes (tokenIndex storeAbCabd) [[js ''zz'']] (Some [1, 0]) =
      Some [1, 0]" by blast
  from t have "computeResults roundPow1 (searchData storeAbCabd) (tokenIndex storeAbCabd)
      [[js ''zz'']] False (Some [1, 0]) [] =
    sortWith compareResults
      (rankLoop roundPow1 (searchData storeAbCabd) [[js ''zz'']] False
         (filter (\<lambda>idx. [] = ([]::jsstring) \<or>
                     (idx < length (searchData storeAbCabd) \<and>
                      category (searchData storeAbCabd ! idx) = []))
            (case Some [1, 0] of Some b \<Rightarrow> b | None \<Rightarrow> [0..<length (searchData storeAbCabd)])))"
    by blast
  then have c: "map index (computeResults roundPow1 (searchData storeAbCabd)
      (tokenIndex storeAbCabd) [[js ''zz'']] False (Some [1, 0]) []) =
    map index (sortWith compareResults
      (rankLoop roundPow1 (searchData storeAbCabd) [[js ''zz'']] False [1, 0]))"
    by simp
  from h have h1: "filter (\<lambda>keyword. length keyword \<ge> MIN_TOKEN_LENGTH \<and> asciiTokenTest keyword)
      [js ''zz''] = [js ''zz'']" by blast
  show ?thesis by (intro conjI h1 n a b c)
qed

section \<open>Page size of a request (C4)\<close>

lemma orDefault_cases:
  "orDefault v d = (if v = None \<or> v = Some 0 then d else the v)"
  by (cases v) (auto simp: orDefault_def)

text \<open>
  C4, as the specification states it, fails on the code: a requested \<^verbatim>\<open>pageSize\<close> of
  \<open>0\<close> is read as \<open>0\<close> by \<^verbatim>\<open>parseInt\<close>, is falsy, and is replaced by the default
  \<open>20\<close> before the clamp; the effective page size is \<open>20\<close>, not \<open>1\<close>.
\<close>

theorem size_of_zero_counterexample:
  "parseInt (js ''0'') = Some 0 \<and> size_of (Some (js ''0'')) = 20 \<and>
   size_of (Some (js ''0'')) \<noteq> min (max 0 1) MAX_PAGE_SIZE"
  by code_simp

text \<open>
  C4, amended: the effective page size always lies in \<open>[1, 100]\<close>. A requested
  \<^verbatim>\<open>pageSize\<close> that \<^verbatim>\<open>parseInt\<close> reads as a non-zero integer \<open>n\<close> yields \<open>n\<close> clamped
  into \<open>[1, 100]\<close> (so a negative request yields \<open>1\<close> and a request above \<open>100\<close>
  yields \<open>100\<close>); a request read as \<open>0\<close>, a request with no leading integer and an
  absent parameter yield the default \<open>20\<close>.
\<close>

theorem size_of_clamped:
  "1 \<le> size_of p \<and> size_of p \<le> 100 \<and>
   (\<forall>s n. p = Some s \<and> parseInt s = Some n \<and> n \<noteq> 0 \<longrightarrow>
      size_of p = min (max n 1) 100 \<and>
      (n < 0 \<longrightarrow> size_of p = 1) \<and> (100 < n \<longrightarrow> size_of p = 100)) \<and>
   (\<forall>s. p = Some s \<and> (parseInt s = Some 0 \<or> parseInt s = None) \<longrightarrow> size_of p = 20) \<and>
   (p = None \<longrightarrow> size_of p = 20)"
  by (auto simp: size_of_def orDefault_def MAX_PAGE_SIZE_def split: option.splits)


theorem size_of_clamped_witness:
  "parseInt (js ''250'') = Some 250 \<and> size_of (Some (js ''250'')) = 100 \<and>
   parseInt (js ''-3'') = Some (- 3) \<and> size_of (Some (js ''-3'')) = 1 \<and>
   parseInt (js ''abc'') = None \<and> size_of (Some (js ''abc'')) = 20"
proof -
  have a: "parseInt (js ''250'') = Some 250" by code_simp
  have b: "parseInt (js ''-3'') = Some (- 3)" by code_simp
  have c: "parseInt (js ''abc'') = None" by code_simp
  from a have "size_of (Some (js ''250'')) = 100"
    using size_of_clamped [of "Some (js ''250'')"] by simp
  moreover from b have "size_of (Some (js ''-3'')) = 1"
    using size_of_clamped [of "Some (js ''-3'')"] by simp
  moreover from c have "size_of (Some (js ''abc'')) = 20"
    using size_of_clamped [of "Some (js ''abc'')"] by simp
  ultimately show ?thesis using a b c by simp
qed

section \<open>The order of a response (C5)\<close>

text \<open>
  C5: in every response of the server, cached or computed, of any two results the
  earlier one has the higher rank if the ranks are unequal, and the lower document ID
  if the ranks are equal.
\<close>

theorem response_order:
  "reachable lc rp st \<and> i < j \<and> j < length (results (fst (search lc rp req now st))) \<Longrightarrow>
   (rank (results (fst (search lc rp req now st)) ! i) \<noteq>
      rank (results (fst (search lc rp req now st)) ! j) \<longrightarrow>
    rank (results (fst (search lc rp req now st)) ! i) >
      rank (results (fst (search lc rp req now st)) ! j)) \<and>
   (rank (results (fst (search lc rp req now st)) ! i) =
      rank (results (fst (search lc rp req now st)) ! j) \<longrightarrow>
    index (results (fst (search lc rp req now st)) ! i) <
      index (results (fst (search lc rp req now st)) ! j))"
proof -
  assume h: "reachable lc rp st \<and> i < j \<and>
    j < length (results (fst (search lc rp req now st)))"
  let ?rs = "results (fst (search lc rp req now st))"
  from h have "reachable lc rp st" by simp
  then have "stateInv st" by (rule reachable_stateInv)
  then have "sorted_wrt before ?rs" by (simp add: search_stateInv)
  with h have "before (?rs ! i) (?rs ! j)" by (simp add: sorted_wrt_iff_nth_less)
  then show ?thesis by (auto simp: before_def)
qed

theorem response_order_witness:
  "map (\<lambda>r. (index r, rank r))
     (results (fst (search asciiLower roundPow1 (keywordRequest (js ''guide'')) 7
        (snd (search asciiLower roundPow1 (keywordRequest (js ''guide'')) 0 storeGuides))))) =
     [(1, 61), (0, 41), (2, 41)] \<and>
   index (results (fst (search asciiLower roundPow1 (keywordRequest (js ''guide'')) 7
        (snd (search asciiLower roundPow1 (keywordRequest (js ''guide'')) 0 storeGuides)))) ! 1) <
   index (results (fst (search asciiLower roundPow1 (keywordRequest (js ''guide'')) 7
        (snd (search asciiLower roundPow1 (keywordRequest (js ''guide'')) 0 storeGuides)))) ! 2)"
proof -
  let ?st = "snd (search asciiLower roundPow1 (keywordRequest (js ''guide'')) 0 storeGuides)"
  let ?rs = "results (fst (search asciiLower roundPow1 (keywordRequest (js ''guide'')) 7 ?st))"
  have "reachable asciiLower roundPow1 storeGuides"
    unfolding storeGuides_def by (rule reachable.loaded)
  then have r: "reachable asciiLower roundPow1 ?st" by (rule reachable.served)
  have v: "map (\<lambda>r. (index r, rank r)) ?rs = [(1, 61), (0, 41), (2, 41)]" by code_simp
  then have "length (map (\<lambda>r. (index r, rank r)) ?rs) = 3" by simp
  then have l: "length ?rs = 3" by simp
  from v have "map (\<lambda>r. (index r, rank r)) ?rs ! 1 = (0, 41)"
    "map (\<lambda>r. (index r, rank r)) ?rs ! 2 = (2, 41)" by simp_all
  with l have e: "rank (?rs ! 1) = rank (?rs ! 2)" by simp
  from response_order [of asciiLower roundPow1 ?st 1 2 "keywordRequest (js ''guide'')" 7] r l e
  have "index (?rs ! 1) < index (?rs ! 2)" by simp
  with v show ?thesis by simp
qed

section \<open>The bound and the eviction order of the Result Cache (C7)\<close>

lemma fullCache_inv: "cacheInv fullCache \<and> length fullCache = 120"
proof -
  have "inj_on (\<lambda>n. replicate (Suc n) (97::nat)) (set [0..<120])"
    by (rule inj_onI) (metis length_replicate nat.inject)
  then have "distinct (map (\<lambda>n. replicate (Suc n) (97::nat)) [0..<120])"
    by (simp add: distinct_map)
  moreover have "map fst fullCache = map (\<lambda>n. replicate (Suc n) (97::nat)) [0..<120]"
    by (simp add: fullCache_def comp_def)
  ultimately have "distinct (map fst fullCache)" by simp
  moreover have "[] \<notin> set (map fst fullCache)" by (auto simp: fullCache_def)
  moreover have "length fullCache = 120" by (simp add: fullCache_def)
  ultimately show ?thesis by (simp add: cacheInv_def CACHE_MAX_ENTRIES_def)
qed

text \<open>
  C7: the cache of every state of the server holds at most 120 entries. On a cache
  with at most 120 entries, \<open>put\<close> with a non-empty key (every key that the handler
  builds is non-empty) inserts the entry at the most recently used end, or overwrites
  the value of a present key in place, and then, if the cache holds more than 120
  entries, removes exactly the first entry in recency order; the key that was put is
  in the cache afterwards and the cache holds at most 120 entries. \<open>get\<close> keeps the
  bound as well, and a live hit returns the cached list and moves the entry to the most
  recently used end (delete and reinsert).
\<close>

theorem result_cache_bounded_lru:
  "(reachable lc rp st \<longrightarrow>
      cacheInv (queryCache st) \<and> length (queryCache st) \<le> CACHE_MAX_ENTRIES) \<and>
   (cacheInv c \<and> key \<noteq> [] \<longrightarrow>
      setCachedResults key rs now c =
        (if length (AList.update key \<lparr>entryResults = rs, timestamp = now\<rparr> c) > CACHE_MAX_ENTRIES
         then tl (AList.update key \<lparr>entryResults = rs, timestamp = now\<rparr> c)
         else AList.update key \<lparr>entryResults = rs, timestamp = now\<rparr> c) \<and>
      map_of (setCachedResults key rs now c) key = Some \<lparr>entryResults = rs, timestamp = now\<rparr> \<and>
      cacheInv (setCachedResults key rs now c) \<and>
      length (setCachedResults key rs now c) \<le> CACHE_MAX_ENTRIES \<and>
      cacheInv (snd (getCachedResults key now c)) \<and>
      length (snd (getCachedResults key now c)) \<le> CACHE_MAX_ENTRIES \<and>
      (\<forall>e. map_of c key = Some e \<and> now - timestamp e \<le> CACHE_TTL \<longrightarrow>
         getCachedResults key now c =
           (Some (entryResults e), AList.delete key c @ [(key, e)])))"
proof (intro conjI impI)
  assume "reachable lc rp st"
  then have "cacheInv (queryCache st)" by (rule reachable_cacheInv)
  then show "cacheInv (queryCache st)" "length (queryCache st) \<le> CACHE_MAX_ENTRIES"
    by (simp_all add: cacheInv_def)
next
  assume h: "cacheInv c \<and> key \<noteq> []"
  then have c: "cacheInv c" and k: "key \<noteq> []" by simp_all
  show "setCachedResults key rs now c =
        (if length (AList.update key \<lparr>entryResults = rs, timestamp = now\<rparr> c) > CACHE_MAX_ENTRIES
         then tl (AList.update key \<lparr>entryResults = rs, timestamp = now\<rparr> c)
         else AList.update key \<lparr>entryResults = rs, timestamp = now\<rparr> c)"
    by (rule setCachedResults_eq [OF c k])
  show "map_of (setCachedResults key rs now c) key = Some \<lparr>entryResults = rs, timestamp = now\<rparr>"
    by (rule setCachedResults_lookup [OF c k])
  show s: "cacheInv (setCachedResults key rs now c)" by (rule setCachedResults_inv [OF c k])
  then show "length (setCachedResults key rs now c) \<le> CACHE_MAX_ENTRIES"
    by (simp add: cacheInv_def)
  show g: "cacheInv (snd (getCachedResults key now c))" by (rule getCachedResults_inv [OF c])
  then show "length (snd (getCachedResults key now c)) \<le> CACHE_MAX_ENTRIES"
    by (simp add: cacheInv_def)
  show "\<forall>e. map_of c key = Some e \<and> now - timestamp e \<le> CACHE_TTL \<longrightarrow>
         getCachedResults key now c =
           (Some (entryResults e), AList.delete key c @ [(key, e)])"
    by (auto intro!: getCachedResults_hit)
qed

theorem result_cache_bounded_lru_witness:
  "reachable asciiLower roundPow1 storePizza \<and>
   length (queryCache storePizza) \<le> CACHE_MAX_ENTRIES \<and>
   cacheInv fullCache \<and> js ''new'' \<noteq> [] \<and> length fullCache = 120 \<and>
   setCachedResults (js ''new'') [] 5 fullCache =
     tl fullCache @ [(js ''new'', \<lparr>entryResults = [], timestamp = 5\<rparr>)] \<and>
   length (setCachedResults (js ''new'') [] 5 fullCache) \<le> CACHE_MAX_ENTRIES \<and>
   map_of fullCache (js ''aaa'') = Some \<lparr>entryResults = [], timestamp = 0\<rparr> \<and>
   getCachedResults (js ''aaa'') 9 fullCache =
     (Some [], AList.delete (js ''aaa'') fullCache @
        [(js ''aaa'', \<lparr>entryResults = [], timestamp = 0\<rparr>)])"
proof -
  have r: "reachable asciiLower roundPow1 storePizza"
    unfolding storePizza_def by (rule reachable.loaded)
  from fullCache_inv have i: "cacheInv fullCache" and l: "length fullCache = 120" by simp_all
  have k: "js ''new'' \<noteq> []" "js ''aaa'' \<noteq> []" by (simp_all add: js_def)
  have new: "js ''new'' \<notin> fst ` set fullCache"
    by (auto simp: fullCache_def js_def)
  then have u: "AList.update (js ''new'') \<lparr>entryResults = [], timestamp = 5\<rparr> fullCache =
      fullCache @ [(js ''new'', \<lparr>entryResults = [], timestamp = 5\<rparr>)]"
    by (rule update_absent)
  have m: "map_of fullCache (js ''aaa'') = Some \<lparr>entryResults = [], timestamp = 0\<rparr>"
    by code_simp
  have ne: "fullCache \<noteq> []" using l by auto
  note a = result_cache_bounded_lru [of asciiLower roundPow1 storePizza fullCache "js ''new''"
      "[]" 5]
  note b = result_cache_bounded_lru [of asciiLower roundPow1 storePizza fullCache "js ''aaa''"
      "[]" 9]
  from a r have q: "length (queryCache storePizza) \<le> CACHE_MAX_ENTRIES" by blast
  from a i k have "setCachedResults (js ''new'') [] 5 fullCache =
     (if length (AList.update (js ''new'') \<lparr>entryResults = [], timestamp = 5\<rparr> fullCache)
           > CACHE_MAX_ENTRIES
      then tl (AList.update (js ''new'') \<lparr>entryResults = [], timestamp = 5\<rparr> fullCache)
      else AList.update (js ''new'') \<lparr>entryResults = [], timestamp = 5\<rparr> fullCache)"
    by blast
  then have s: "setCachedResults (js ''new'') [] 5 fullCache =
     tl fullCache @ [(js ''new'', \<lparr>entryResults = [], timestamp = 5\<rparr>)]"
    using l ne by (simp add: u CACHE_MAX_ENTRIES_def)
  from a i k have sl: "length (setCachedResults (js ''new'') [] 5 fullCache)
      \<le> CACHE_MAX_ENTRIES" by blast
  have "map_of fullCache (js ''aaa'') = Some \<lparr>entryResults = [], timestamp = 0\<rparr> \<and>
      9 - timestamp \<lparr>entryResults = [], timestamp = 0\<rparr> \<le> CACHE_TTL"
    using m by (simp add: CACHE_TTL_def)
  with b i k have "getCachedResults (js ''aaa'') 9 fullCache =
     (Some (entryResults \<lparr>entryResults = [], timestamp = 0\<rparr>),
      AList.delete (js ''aaa'') fullCache @ [(js ''aaa'', \<lparr>entryResults = [], timestamp = 0\<rparr>)])"
    by blast
  then have g: "getCachedResults (js ''aaa'') 9 fullCache =
     (Some [], AList.delete (js ''aaa'') fullCache @
        [(js ''aaa'', \<lparr>entryResults = [], timestamp = 0\<rparr>)])"
    by simp
  show ?thesis by (intro conjI r q i k(1) l s sl m g)
qed

section \<open>Paginator (C6)\<close>

lemma slice_nonneg:
  "0 \<le> start \<Longrightarrow> 0 \<le> n \<Longrightarrow>
   slice xs start (start + n) = take (nat n) (drop (nat start) xs)"
  by (auto simp: slice_def Let_def min_def)

lemma ceiling_quotient_bounds:
  fixes n :: nat and k :: int
  assumes "1 \<le> k"
  shows "int n \<le> \<lceil>real n / real_of_int k\<rceil> * k"
    and "(\<lceil>real n / real_of_int k\<rceil> - 1) * k < int n"
proof -
  let ?q = "real n / real_of_int k"
  have k: "0 < real_of_int k" using assms by simp
  have "?q \<le> real_of_int \<lceil>?q\<rceil>" by (rule le_of_int_ceiling)
  then have "real n \<le> real_of_int \<lceil>?q\<rceil> * real_of_int k"
    using k by (simp only: pos_divide_le_eq)
  then have "real_of_int (int n) \<le> real_of_int (\<lceil>?q\<rceil> * k)" by simp
  then show "int n \<le> \<lceil>?q\<rceil> * k" by (simp only: of_int_le_iff)
  have "real_of_int \<lceil>?q\<rceil> - 1 < ?q" by linarith
  then have "(real_of_int \<lceil>?q\<rceil> - 1) * real_of_int k < real n"
    using k by (simp only: pos_less_divide_eq)
  then have "real_of_int ((\<lceil>?q\<rceil> - 1) * k) < real_of_int (int n)" by simp
  then show "(\<lceil>?q\<rceil> - 1) * k < int n" by (simp only: of_int_less_iff)
qed

text \<open>
  C6: for a page number \<open>\<ge> 1\<close> and a page size in \<open>[1, 100]\<close>, \<open>total\<close> is the length
  of the full list and \<open>totalPages\<close> is \<open>ceil(total / pageSize)\<close>, the least number of
  pages of that size that hold the list; both are computed from the full list, whatever
  the page. The slice is the \<open>pageSize\<close> results from position
  \<open>(pageNum - 1) * pageSize\<close> on, and it is empty when the page is past the end. The
  same holds for the infinite page number, which is past the end of every list.
\<close>

theorem paginateResults_page:
  "1 \<le> pageNum \<and> 1 \<le> psize \<and> psize \<le> MAX_PAGE_SIZE \<Longrightarrow>
   total (paginateResults rs (Fin pageNum) psize) = length rs \<and>
   totalPages (paginateResults rs (Fin pageNum) psize) = \<lceil>real (length rs) / real_of_int psize\<rceil> \<and>
   int (length rs) \<le> totalPages (paginateResults rs (Fin pageNum) psize) * psize \<and>
   (totalPages (paginateResults rs (Fin pageNum) psize) - 1) * psize < int (length rs) \<and>
   results (paginateResults rs (Fin pageNum) psize) =
     take (nat psize) (drop (nat ((pageNum - 1) * psize)) rs) \<and>
   (totalPages (paginateResults rs (Fin pageNum) psize) < pageNum \<longrightarrow>
      results (paginateResults rs (Fin pageNum) psize) = []) \<and>
   total (paginateResults rs PosInf psize) = length rs \<and>
   totalPages (paginateResults rs PosInf psize) = \<lceil>real (length rs) / real_of_int psize\<rceil> \<and>
   results (paginateResults rs PosInf psize) = []"
proof -
  assume h: "1 \<le> pageNum \<and> 1 \<le> psize \<and> psize \<le> MAX_PAGE_SIZE"
  let ?P = "paginateResults rs (Fin pageNum) psize"
  let ?c = "\<lceil>real (length rs) / real_of_int psize\<rceil>"
  have t: "total ?P = length rs" by (simp add: paginateResults_def Let_def)
  have tp: "totalPages ?P = ?c" by (simp add: paginateResults_def Let_def)
  have st: "0 \<le> (pageNum - 1) * psize" using h by simp
  have r: "results ?P = take (nat psize) (drop (nat ((pageNum - 1) * psize)) rs)"
    using h st by (simp add: paginateResults_def Let_def slice_nonneg)
  have up: "int (length rs) \<le> ?c * psize" and lo: "(?c - 1) * psize < int (length rs)"
    using ceiling_quotient_bounds [of psize "length rs"] h by simp_all
  have past: "results ?P = []" if "?c < pageNum"
  proof -
    from that have "?c \<le> pageNum - 1" by simp
    then have "?c * psize \<le> (pageNum - 1) * psize"
      using h by (simp add: mult_right_mono)
    with up have "int (length rs) \<le> (pageNum - 1) * psize" by linarith
    then have "length rs \<le> nat ((pageNum - 1) * psize)" by linarith
    then show ?thesis by (simp add: r)
  qed
  have inf: "total (paginateResults rs PosInf psize) = length rs"
    "totalPages (paginateResults rs PosInf psize) = ?c"
    "results (paginateResults rs PosInf psize) = []"
    by (simp_all add: paginateResults_def Let_def)
  from t tp up lo r past inf show ?thesis by simp
qed

theorem paginateResults_page_witness:
  "(1::int) \<le> 5 \<and> (1::int) \<le> 2 \<and> (2::int) \<le> MAX_PAGE_SIZE \<and>
   total (paginateResults [10, 20, 30 :: nat] (Fin 5) 2) = 3 \<and>
   totalPages (paginateResults [10, 20, 30 :: nat] (Fin 5) 2) = 2 \<and>
   results (paginateResults [10, 20, 30 :: nat] (Fin 5) 2) = [] \<and>
   results (paginateResults [10, 20, 30 :: nat] (Fin 2) 1) = [20]"
proof -
  have h: "(1::int) \<le> 5 \<and> (1::int) \<le> 2 \<and> (2::int) \<le> MAX_PAGE_SIZE"
    by (simp add: MAX_PAGE_SIZE_def)
  have g: "(1::int) \<le> 2 \<and> (1::int) \<le> 1 \<and> (1::int) \<le> MAX_PAGE_SIZE"
    by (simp add: MAX_PAGE_SIZE_def)
  have c: "\<lceil>real (length [10, 20, 30 :: nat]) / real_of_int 2\<rceil> = 2" by simp
  show ?thesis
    using paginateResults_page [OF h, of "[10, 20, 30 :: nat]"]
      paginateResults_page [OF g, of "[10, 20, 30 :: nat]"] h c
    by simp
qed

section \<open>Query Parser (C8)\<close>

text \<open>
  C8: the raw keyword string \<^verbatim>\<open>"hello world" foo|bar\<close>, the double quotes (code unit
  \<open>34\<close>) being part of the input, parses into exactly two groups in this order: the
  single alternative \<^verbatim>\<open>hello world\<close>, then the two alternatives \<^verbatim>\<open>foo\<close> and
  \<^verbatim>\<open>bar\<close>.
\<close>

theorem parseSearchKeywords_quoted_or:
  "parseSearchKeywords ([34] @ js ''hello world'' @ [34] @ js '' foo|bar'') =
     [[js ''hello world''], [js ''foo'', js ''bar'']]"
  by code_simp

section \<open>Requests that are answered with an empty result set (C9)\<close>

text \<open>
  C9, as the specification states it, fails on the code: a \<^verbatim>\<open>baseIndexes\<close> of one
  blank is a non-empty string with no valid document ID (its only entry is read as
  \<^verbatim>\<open>NaN\<close>), and the handler takes it as no restriction; so it does a repeated
  \<^verbatim>\<open>baseIndexes\<close> parameter with the entries \<^verbatim>\<open>7\<close> and \<^verbatim>\<open>9\<close>, which arrives as an
  array. In the store of one document both requests get that document.
\<close>

theorem blank_baseIndexes_counterexample:
  "js '' '' \<noteq> [] \<and> split 44 (js '' '') = [js '' ''] \<and> parseInt (js '' '') = None \<and>
   map index (results (fst (search asciiLower roundPow1
      (baseRequest (js ''pizza'') (js '' '')) 0 storePizza))) = [0] \<and>
   total (fst (search asciiLower roundPow1
      (baseRequest (js ''pizza'') (js '' '')) 0 storePizza)) = 1 \<and>
   length (searchData storePizza) = 1 \<and>
   map index (results (fst (search asciiLower roundPow1
      (arrayBaseRequest (js ''pizza'') (js ''7,9'')) 0 storePizza))) = [0] \<and>
   total (fst (search asciiLower roundPow1
      (arrayBaseRequest (js ''pizza'') (js ''7,9'')) 0 storePizza)) = 1"
  by code_simp

text \<open>
  C9, amended: a request whose keyword is absent or the empty string, or whose keyword
  parses to zero groups, or whose \<^verbatim>\<open>baseIndexes\<close> parameter is a string that is not
  blank (not empty after trimming white space) and has no entry that \<^verbatim>\<open>parseInt\<close>
  reads as an integer in \<open>[0, store size)\<close>, is answered with the empty result set:
  \<open>results = []\<close>, \<open>total = 0\<close>, \<open>totalPages = 0\<close>, the page number and page size of
  the request; the answer is an ordinary response, and the state is left as it was.
  A \<^verbatim>\<open>baseIndexes\<close> parameter that is a blank string or is no string (a repeated
  parameter arrives as an array) is no restriction: the request is answered as the
  same request without the parameter.
\<close>

theorem search_empty_result:
  "(q_keyword req = None \<or> q_keyword req = Some (Str []) \<or>
    (\<exists>k. q_keyword req = Some k \<and> parseSearchKeywords (paramString k) = []) \<or>
    (\<exists>b. q_baseIndexes req = Some (Str b) \<and> trim b \<noteq> [] \<and>
         list_all (\<lambda>e. \<not> validEntry (length (searchData st)) e) (split 44 b)) \<longrightarrow>
    search lc rp req now st =
      (\<lparr>results = [], total = 0, page = pageNum_req req, totalPages = 0,
        pageSize = size_req req\<rparr>, st) \<and>
    results (fst (search lc rp req now st)) = [] \<and>
    total (fst (search lc rp req now st)) = 0) \<and>
   ((\<exists>b. q_baseIndexes req = Some (Str b) \<and> trim b = []) \<or>
    (\<exists>v. q_baseIndexes req = Some (NonStr v)) \<longrightarrow>
    baseIndexesSet_of (length (searchData st)) req = None \<and>
    search lc rp req now st = search lc rp (req\<lparr>q_baseIndexes := None\<rparr>) now st)"
proof (intro conjI impI)
  assume h: "q_keyword req = None \<or> q_keyword req = Some (Str []) \<or>
    (\<exists>k. q_keyword req = Some k \<and> parseSearchKeywords (paramString k) = []) \<or>
    (\<exists>b. q_baseIndexes req = Some (Str b) \<and> trim b \<noteq> [] \<and>
         list_all (\<lambda>e. \<not> validEntry (length (searchData st)) e) (split 44 b))"
  have e: "search lc rp req now st = (emptyResponse (pageNum_req req) (size_req req), st)"
  proof (cases "q_keyword req")
    case None
    then show ?thesis by (simp add: search_def)
  next
    case (Some k)
    show ?thesis
    proof (cases "k = Str [] \<or> parseSearchKeywords (paramString k) = []")
      case True
      with Some show ?thesis by (auto simp: search_def Let_def)
    next
      case False
      with h Some obtain b where b: "q_baseIndexes req = Some (Str b)" "trim b \<noteq> []"
        "list_all (\<lambda>e. \<not> validEntry (length (searchData st)) e) (split 44 b)"
        by auto
      then have "baseIndexesSet_of (length (searchData st)) req = Some []"
        by (simp add: baseIndexesSet_of_def parseBaseIndexes_empty_iff)
      with Some show ?thesis by (simp add: search_def Let_def)
    qed
  qed
  then show "search lc rp req now st =
      (\<lparr>results = [], total = 0, page = pageNum_req req, totalPages = 0,
        pageSize = size_req req\<rparr>, st)"
    by (simp add: emptyResponse_def)
  from e show "results (fst (search lc rp req now st)) = []"
    by (simp add: emptyResponse_def)
  from e show "total (fst (search lc rp req now st)) = 0"
    by (simp add: emptyResponse_def)
next
  assume h: "(\<exists>b. q_baseIndexes req = Some (Str b) \<and> trim b = []) \<or>
    (\<exists>v. q_baseIndexes req = Some (NonStr v))"
  let ?req = "req\<lparr>q_baseIndexes := None\<rparr>"
  from h show n: "baseIndexesSet_of (length (searchData st)) req = None"
    by (auto simp: baseIndexesSet_of_def)
  have n': "baseIndexesSet_of (length (searchData st)) ?req = None"
    by (simp add: baseIndexesSet_of_def)
  have same: "pageNum_req ?req = pageNum_req req" "size_req ?req = size_req req"
    "isTitleOnly_of ?req = isTitleOnly_of req"
    "categoryFilter_of lc ?req = categoryFilter_of lc req"
    "q_keyword ?req = q_keyword req"
    by (simp_all add: pageNum_req_def size_req_def isTitleOnly_of_def categoryFilter_of_def)
  have key: "cacheKey_of lc (length (searchData st)) ?req kw =
      cacheKey_of lc (length (searchData st)) req kw" for kw
    by (simp only: cacheKey_of_def n n' same)
  show "search lc rp req now st = search lc rp ?req now st"
    by (simp only: search_def n n' same key)
qed

theorem search_empty_result_witness:
  "parseSearchKeywords (js ''   '') = [] \<and>
   fst (search asciiLower roundPow1 (keywordRequest (js ''   '')) 0 storePizza) =
     \<lparr>results = [], total = 0, page = Fin 1, totalPages = 0, pageSize = 20\<rparr> \<and>
   trim (js ''7, x,-1'') \<noteq> [] \<and>
   list_all (\<lambda>e. \<not> validEntry (length (searchData storePizza)) e) (split 44 (js ''7, x,-1'')) \<and>
   fst (search asciiLower roundPow1 (baseRequest (js ''pizza'') (js ''7, x,-1'')) 0 storePizza) =
     \<lparr>results = [], total = 0, page = Fin 1, totalPages = 0, pageSize = 20\<rparr> \<and>
   trim (js '' '') = [] \<and>
   search asciiLower roundPow1 (baseRequest (js ''pizza'') (js '' '')) 0 storePizza =
     search asciiLower roundPow1 (keywordRequest (js ''pizza'')) 0 storePizza"
proof -
  have p: "parseSearchKeywords (js ''   '') = []" by code_simp
  have t: "trim (js ''7, x,-1'') \<noteq> []" by code_simp
  have v: "list_all (\<lambda>e. \<not> validEntry (length (searchData storePizza)) e)
             (split 44 (js ''7, x,-1''))" by code_simp
  have u: "trim (js '' '') = []" by code_simp
  have pn: "pageNum_req (keywordRequest k) = Fin 1" "size_req (keywordRequest k) = 20"
    "pageNum_req (baseRequest k b) = Fin 1" "size_req (baseRequest k b) = 20" for k b
    by (simp_all add: pageNum_req_def size_req_def keywordRequest_def baseRequest_def
        pageNum_of_def size_of_def orNumber_def maxNumber_def orDefault_def MAX_PAGE_SIZE_def)
  have a: "fst (search asciiLower roundPow1 (keywordRequest (js ''   '')) 0 storePizza) =
     \<lparr>results = [], total = 0, page = Fin 1, totalPages = 0, pageSize = 20\<rparr>"
    using search_empty_result [of "keywordRequest (js ''   '')" storePizza asciiLower roundPow1 0]
      p pn
    by (simp add: keywordRequest_def)
  have b: "fst (search asciiLower roundPow1 (baseRequest (js ''pizza'') (js ''7, x,-1''))
        0 storePizza) =
     \<lparr>results = [], total = 0, page = Fin 1, totalPages = 0, pageSize = 20\<rparr>"
    using search_empty_result [of "baseRequest (js ''pizza'') (js ''7, x,-1'')"
        storePizza asciiLower roundPow1 0] t v pn
    by (simp add: keywordRequest_def baseRequest_def)
  have "(baseRequest (js ''pizza'') (js '' ''))\<lparr>q_baseIndexes := None\<rparr> =
      keywordRequest (js ''pizza'')"
    by (simp add: baseRequest_def keywordRequest_def)
  then have c: "search asciiLower roundPow1 (baseRequest (js ''pizza'') (js '' '')) 0 storePizza =
     search asciiLower roundPow1 (keywordRequest (js ''pizza'')) 0 storePizza"
    using search_empty_result [of "baseRequest (js ''pizza'') (js '' '')"
        storePizza asciiLower roundPow1 0] u
    by (simp add: baseRequest_def keywordRequest_def)
  show ?thesis by (intro conjI p a t v b u c)
qed

section \<open>Requests with a base-index restriction (C10)\<close>

text \<open>
  C10, as it is stated, fails on the code. A repeated \<^verbatim>\<open>baseIndexes\<close> parameter with
  the entries \<^verbatim>\<open>2\<close> and \<^verbatim>\<open>0\<close> arrives as an array, which the handler takes as no
  restriction: in the store of three titles with \<^verbatim>\<open>guide\<close> the search returns all
  three documents, where the string \<^verbatim>\<open>2,0\<close> restricts it to the documents 0 and 2.
  And a request may be answered from the cache entry of another request: the requests
  with the keyword \<^verbatim>\<open>b|1\<close> alone, and with the keyword \<^verbatim>\<open>b\<close>, the base index \<^verbatim>\<open>1\<close>
  and the category \<^verbatim>\<open>|\<close>, build the same cache key, so that after the first the
  second is answered with the documents 0 and 1, although its base set is \<open>[1]\<close>.
\<close>

theorem baseIndexes_counterexample:
  "map index (results (fst (search asciiLower roundPow1
      (arrayBaseRequest (js ''guide'') (js ''2,0'')) 0 storeGuides))) = [1, 0, 2] \<and>
   map index (results (fst (search asciiLower roundPow1
      (baseRequest (js ''guide'') (js ''2,0'')) 0 storeGuides))) = [0, 2] \<and>
   cacheKey_of asciiLower 2 (keywordRequest (js ''b|1'')) (js ''b|1'') =
     cacheKey_of asciiLower 2 (categoryBaseRequest (js ''b'') (js ''1'') (js ''|'')) (js ''b'') \<and>
   baseIndexesSet_of (length (searchData storeAbCabd))
     (categoryBaseRequest (js ''b'') (js ''1'') (js ''|'')) = Some [1] \<and>
   map index (results (fst (search asciiLower roundPow1
      (categoryBaseRequest (js ''b'') (js ''1'') (js ''|'')) 1
      (snd (search asciiLower roundPow1 (keywordRequest (js ''b|1'')) 0 storeAbCabd))))) =
     [0, 1]"
  by code_simp

text \<open>
  C10, amended: when the \<^verbatim>\<open>baseIndexes\<close> parameter is a string with at least one entry
  that \<^verbatim>\<open>parseInt\<close> reads as an integer in \<open>[0, store size)\<close>, the base set that the
  handler builds is not empty and holds exactly these document IDs, each once (the
  other entries are dropped); when moreover the keyword parses to at least one group
  and the handler finds no live entry under the key of the request in the cache, the
  response is the page of the full result list of the same search without restriction
  cut down to the documents of the base set, so that every result lies in the base
  set. What a live cache entry under that key returns is left open. For a
  \<^verbatim>\<open>baseIndexes\<close> parameter that is no string the handler builds no base set.
\<close>

theorem baseIndexes_restricts_search:
  "(q_baseIndexes req = Some (Str b) \<and>
    (\<exists>e \<in> set (split 44 b). validEntry (length (searchData st)) e) \<and>
    B = parseBaseIndexes (length (searchData st)) b \<longrightarrow>
    B \<noteq> [] \<and> distinct B \<and>
    set B = {nat i | i e. e \<in> set (split 44 b) \<and> parseInt e = Some i \<and>
                          0 \<le> i \<and> i < int (length (searchData st))} \<and>
    baseIndexesSet_of (length (searchData st)) req = Some B \<and>
    (q_keyword req = Some k \<and> parseSearchKeywords (paramString k) \<noteq> [] \<and>
     fst (getCachedResults (cacheKey_of lc (length (searchData st)) req (paramString k)) now
            (queryCache st)) = None \<longrightarrow>
     fst (search lc rp req now st) =
       paginateResults
         (filter (\<lambda>r. index r \<in> set B)
            (computeResults rp (searchData st) (tokenIndex st)
               (keywordGroupsLower_of lc (paramString k)) (isTitleOnly_of req) None
               (categoryFilter_of lc req)))
         (pageNum_req req) (size_req req) \<and>
     (\<forall>r \<in> set (results (fst (search lc rp req now st))). index r \<in> set B))) \<and>
   ((\<exists>v. q_baseIndexes req = Some (NonStr v)) \<longrightarrow>
    baseIndexesSet_of (length (searchData st)) req = None)"
proof (intro conjI impI)
  assume h: "q_baseIndexes req = Some (Str b) \<and>
    (\<exists>e \<in> set (split 44 b). validEntry (length (searchData st)) e) \<and>
    B = parseBaseIndexes (length (searchData st)) b"
  let ?n = "length (searchData st)"
  from h have qb: "q_baseIndexes req = Some (Str b)"
    and B: "B = parseBaseIndexes ?n b"
    by blast+
  from h obtain e where e: "e \<in> set (split 44 b)" "validEntry ?n e" by blast
  then have tb: "trim b \<noteq> []" by (rule valid_entry_not_blank)
  from e have "\<not> list_all (\<lambda>e. \<not> validEntry ?n e) (split 44 b)"
    by (auto simp: list_all_iff)
  then show ne: "B \<noteq> []" unfolding B by (simp add: parseBaseIndexes_empty_iff)
  show d: "distinct B" unfolding B by (simp add: parseBaseIndexes_def)
  show "set B = {nat i | i e. e \<in> set (split 44 b) \<and> parseInt e = Some i \<and>
                         0 \<le> i \<and> i < int ?n}"
    unfolding B by (rule set_parseBaseIndexes)
  have bound: "\<forall>i \<in> set B. i < ?n" unfolding B by (auto dest: parseBaseIndexes_bound)
  show bs: "baseIndexesSet_of ?n req = Some B"
    unfolding B using qb tb by (simp add: baseIndexesSet_of_def)
  let ?full = "computeResults rp (searchData st) (tokenIndex st)
      (keywordGroupsLower_of lc (paramString k)) (isTitleOnly_of req) None
      (categoryFilter_of lc req)"
  assume m: "q_keyword req = Some k \<and> parseSearchKeywords (paramString k) \<noteq> [] \<and>
    fst (getCachedResults (cacheKey_of lc ?n req (paramString k)) now (queryCache st)) = None"
  then have kw: "q_keyword req = Some k" and p: "parseSearchKeywords (paramString k) \<noteq> []"
    and miss: "fst (getCachedResults (cacheKey_of lc ?n req (paramString k)) now
      (queryCache st)) = None"
    by blast+
  have "baseIndexesSet_of ?n req \<noteq> Some []" using bs ne by simp
  from search_computed [OF kw p this miss, of rp]
  have "fst (search lc rp req now st) =
      paginateResults
        (computeResults rp (searchData st) (tokenIndex st)
           (keywordGroupsLower_of lc (paramString k)) (isTitleOnly_of req) (Some B)
           (categoryFilter_of lc req))
        (pageNum_req req) (size_req req)"
    by (simp only: bs)
  then show r: "fst (search lc rp req now st) =
      paginateResults (filter (\<lambda>r. index r \<in> set B) ?full)
        (pageNum_req req) (size_req req)"
    by (simp only: computeResults_base [OF d bound])
  have sub: "set (results (paginateResults xs pn z)) \<subseteq> set xs"
    for xs :: "result list" and pn z
    by (cases pn)
       (auto simp: paginateResults_def Let_def slice_def dest: in_set_takeD in_set_dropD)
  show "\<forall>r \<in> set (results (fst (search lc rp req now st))). index r \<in> set B"
  proof
    fix x assume "x \<in> set (results (fst (search lc rp req now st)))"
    then have "x \<in> set (results (paginateResults (filter (\<lambda>r. index r \<in> set B) ?full)
        (pageNum_req req) (size_req req)))"
      by (simp only: r)
    with sub [of "filter (\<lambda>r. index r \<in> set B) ?full"]
    have "x \<in> set (filter (\<lambda>r. index r \<in> set B) ?full)" by blast
    then show "index x \<in> set B" by simp
  qed
next
  assume "\<exists>v. q_baseIndexes req = Some (NonStr v)"
  then show "baseIndexesSet_of (length (searchData st)) req = None"
    by (auto simp: baseIndexesSet_of_def)
qed

theorem baseIndexes_restricts_search_witness:
  "q_keyword (baseRequest (js ''guide'') (js ''2, 9,x,2,0'')) = Some (Str (js ''guide'')) \<and>
   parseSearchKeywords (js ''guide'') \<noteq> [] \<and>
   q_baseIndexes (baseRequest (js ''guide'') (js ''2, 9,x,2,0'')) =
     Some (Str (js ''2, 9,x,2,0'')) \<and>
   list_ex (validEntry (length (searchData storeGuides))) (split 44 (js ''2, 9,x,2,0'')) \<and>
   fst (getCachedResults
     (cacheKey_of asciiLower (length (searchData storeGuides))
        (baseRequest (js ''guide'') (js ''2, 9,x,2,0'')) (js ''guide'')) 0
     (queryCache storeGuides)) = None \<and>
   [2, 0] = parseBaseIndexes (length (searchData storeGuides)) (js ''2, 9,x,2,0'') \<and>
   baseIndexesSet_of (length (searchData storeGuides))
     (baseRequest (js ''guide'') (js ''2, 9,x,2,0'')) = Some [2, 0] \<and>
   map index (results (fst (search asciiLower roundPow1
      (keywordRequest (js ''guide'')) 0 storeGuides))) = [1, 0, 2] \<and>
   map index (results (fst (search asciiLower roundPow1
      (baseRequest (js ''guide'') (js ''2, 9,x,2,0'')) 0 storeGuides))) = [0, 2]"
proof -
  let ?req = "baseRequest (js ''guide'') (js ''2, 9,x,2,0'')"
  have a: "q_keyword ?req = Some (Str (js ''guide''))" by code_simp
  have b: "parseSearchKeywords (js ''guide'') \<noteq> []" by code_simp
  have c: "q_baseIndexes ?req = Some (Str (js ''2, 9,x,2,0''))" by code_simp
  have d: "list_ex (validEntry (length (searchData storeGuides))) (split 44 (js ''2, 9,x,2,0''))"
    by code_simp
  have e: "fst (getCachedResults
     (cacheKey_of asciiLower (length (searchData storeGuides)) ?req (js ''guide'')) 0
     (queryCache storeGuides)) = None"
    by code_simp
  have f: "[2, 0] = parseBaseIndexes (length (searchData storeGuides)) (js ''2, 9,x,2,0'')"
    by code_simp
  have u: "map index (results (fst (search asciiLower roundPow1
      (keywordRequest (js ''guide'')) 0 storeGuides))) = [1, 0, 2]"
    by code_simp
  have g: "map index (results (fst (search asciiLower roundPow1 ?req 0 storeGuides))) = [0, 2]"
    by code_simp
  from d have d': "\<exists>e \<in> set (split 44 (js ''2, 9,x,2,0'')).
      validEntry (length (searchData storeGuides)) e"
    by (simp only: list_ex_iff)
  have "baseIndexesSet_of (length (searchData storeGuides)) ?req = Some [2, 0]"
    using baseIndexes_restricts_search [where req = ?req and k = "Str (js ''guide'')"
        and b = "js ''2, 9,x,2,0''" and st = storeGuides and B = "[2, 0]"
        and lc = asciiLower and now = 0 and rp = roundPow1] c d' f
    by blast
  with a b c d e f u g show ?thesis by (intro conjI)
qed


end
